theory Spec2Isabelle
  imports Main "HOL-Library.Word" "HOL-Library.Signed_Division"
begin

section \<open>Data model of \<open>Spreadsheet.cpp\<close>\<close>

text \<open>
  The C++ type \<open>int\<close> is a 32-bit two's complement integer. It is modelled as a
  32-bit word, read through \<open>sint\<close>. Signed overflow of a sum, a difference or a
  product, which the C++ standard leaves undefined, wraps around in the model.
\<close>

type_synonym cint = "32 word"

text \<open>\<open>enum class CellState { Empty, Error }\<close> and
  \<open>using CellValue = std::variant<int, CellState>\<close>.\<close>

datatype CellState = Empty | Error

datatype CellValue = CInt cint | CState CellState

text \<open>The exceptions \<open>std::stoi\<close> throws.\<close>

datatype exception = Invalid_argument | Out_of_range

text \<open>
  How a run ends without a result: an exception that nothing catches, the signal the
  processor raises for an integer division it cannot perform, or, in this model only, a
  chain of recursive calls deeper than the given bound.
\<close>

datatype failure = Uncaught exception | Arithmetic_trap | Depth_exceeded

section \<open>Characters, tokens and integer conversion\<close>

text \<open>
  \<open>std::isspace\<close>, \<open>std::isalpha\<close> and the digit class in the "C" locale, where no
  byte above 127 is a letter, a digit or white space.
\<close>

definition isspace :: "char \<Rightarrow> bool" where
  "isspace c = (let n = (of_char c :: nat) in n = 32 \<or> (9 \<le> n \<and> n \<le> 13))"

definition isupper :: "char \<Rightarrow> bool" where
  "isupper c = (let n = (of_char c :: nat) in 65 \<le> n \<and> n \<le> 90)"

definition islower :: "char \<Rightarrow> bool" where
  "islower c = (let n = (of_char c :: nat) in 97 \<le> n \<and> n \<le> 122)"

definition isalpha :: "char \<Rightarrow> bool" where
  "isalpha c = (isupper c \<or> islower c)"

definition isdigit :: "char \<Rightarrow> bool" where
  "isdigit c = (let n = (of_char c :: nat) in 48 \<le> n \<and> n \<le> 57)"

text \<open>
  \<open>while (iss >> token)\<close>: the tokens of a string are its maximal runs of
  non-whitespace characters, in order. \<open>cur\<close> is the token being read.
\<close>

fun tokens_from :: "string \<Rightarrow> string \<Rightarrow> string list" where
  "tokens_from cur [] = (if cur = [] then [] else [cur])"
| "tokens_from cur (c # cs) =
     (if isspace c
      then (if cur = [] then tokens_from [] cs else cur # tokens_from [] cs)
      else tokens_from (cur @ [c]) cs)"

definition tokens :: "string \<Rightarrow> string list" where
  "tokens s = tokens_from [] s"

text \<open>The value of a run of decimal digits, as an unbounded integer.\<close>

definition digit_val :: "char \<Rightarrow> int" where
  "digit_val c = int (of_char c) - 48"

definition digits_value :: "string \<Rightarrow> int" where
  "digits_value ds = foldl (\<lambda>acc c. acc * 10 + digit_val c) 0 ds"

text \<open>
  \<open>std::stoi(token)\<close> in base 10: leading whitespace is skipped, one optional sign is
  read, then the longest run of digits. No digit at that point throws
  \<open>std::invalid_argument\<close>; a value outside the range of \<open>int\<close> throws
  \<open>std::out_of_range\<close>. Characters after the digits are ignored.
\<close>

definition stoi :: "string \<Rightarrow> exception + cint" where
  "stoi s =
     (let s1 = dropWhile isspace s;
          neg = (s1 \<noteq> [] \<and> hd s1 = CHR ''-'');
          s2 = (if s1 \<noteq> [] \<and> (hd s1 = CHR ''-'' \<or> hd s1 = CHR ''+'') then tl s1 else s1);
          ds = takeWhile isdigit s2
      in if ds = [] then Inl Invalid_argument
         else let v = (if neg then - digits_value ds else digits_value ds)
              in if - (2 ^ 31) \<le> v \<and> v \<le> 2 ^ 31 - 1 then Inr (word_of_int v)
                 else Inl Out_of_range)"

text \<open>\<open>std::to_string(int)\<close>: the decimal digits, with a minus sign for negatives.\<close>

definition digit_char :: "nat \<Rightarrow> char" where
  "digit_char n = char_of (48 + n)"

fun nat_to_string :: "nat \<Rightarrow> string" where
  "nat_to_string n =
     (if n < 10 then [digit_char n]
      else nat_to_string (n div 10) @ [digit_char (n mod 10)])"

declare nat_to_string.simps [simp del]

definition to_string :: "cint \<Rightarrow> string" where
  "to_string i =
     (if sint i < 0 then CHR ''-'' # nat_to_string (nat (- sint i))
      else nat_to_string (nat (sint i)))"

text \<open>
  Division of two \<open>int\<close>s in C++ truncates toward zero. The quotient of the least
  \<open>int\<close> by \<open>-1\<close> is not an \<open>int\<close>: like a zero divisor, that division is undefined
  and the processor raises a signal that ends the program.
\<close>

definition int_div :: "cint \<Rightarrow> cint \<Rightarrow> failure + cint" where
  "int_div a b =
     (if b = 0 \<or> (sint a = - (2 ^ 31) \<and> sint b = - 1) then Inl Arithmetic_trap
      else Inr (word_of_int (sint a sdiv sint b)))"

section \<open>The spreadsheet state\<close>

text \<open>
  \<open>cells\<close> is \<open>unordered_map<int, unordered_map<int, CellValue>>\<close>, column first.
  \<open>dependencies\<close> maps an address to its formula and to the addresses whose formulas
  contain it.
\<close>

type_synonym cellgrid = "cint \<rightharpoonup> (cint \<rightharpoonup> CellValue)"

type_synonym registry = "string \<rightharpoonup> (string \<times> string list)"

record spreadsheet =
  max_col :: cint
  max_row :: cint
  cells :: cellgrid
  dependencies :: registry

definition clear :: spreadsheet where
  "clear = \<lparr>max_col = 0, max_row = 0, cells = Map.empty, dependencies = Map.empty\<rparr>"

text \<open>\<open>cells[col]\<close>: \<open>operator[]\<close> inserts an empty inner map for a missing column.\<close>

definition cells_index :: "cellgrid \<Rightarrow> cint \<Rightarrow> cellgrid" where
  "cells_index g col = (case g col of None \<Rightarrow> g(col \<mapsto> Map.empty) | Some _ \<Rightarrow> g)"

text \<open>\<open>cells[col][row] = v\<close>.\<close>

definition cells_assign :: "cellgrid \<Rightarrow> cint \<times> cint \<Rightarrow> CellValue \<Rightarrow> cellgrid" where
  "cells_assign g p v =
     (case g (fst p) of
        None \<Rightarrow> g(fst p \<mapsto> [snd p \<mapsto> v])
      | Some inner \<Rightarrow> g(fst p \<mapsto> inner(snd p \<mapsto> v)))"

text \<open>The value stored at a coordinate, if any: what \<open>find\<close> on both levels returns.\<close>

definition cell_at :: "cellgrid \<Rightarrow> cint \<times> cint \<Rightarrow> CellValue option" where
  "cell_at g p = (case g (fst p) of None \<Rightarrow> None | Some inner \<Rightarrow> inner (snd p))"

text \<open>\<open>dependencies[k]\<close> read: a missing key has the default entry.\<close>

definition dep_entry :: "registry \<Rightarrow> string \<Rightarrow> string \<times> string list" where
  "dep_entry d k = (case d k of None \<Rightarrow> ([], []) | Some e \<Rightarrow> e)"

section \<open>The postfix evaluator\<close>

definition is_operator :: "string \<Rightarrow> bool" where
  "is_operator t = (t = ''+'' \<or> t = ''-'' \<or> t = ''*'' \<or> t = ''/'')"

text \<open>
  The loop of \<open>calculate_postfix\<close>. The operand stack is a list with the top first.
  The result is the stack and the \<open>error\<close> flag when the loop ends, by exhausting
  the tokens or by \<open>break\<close>, unless a division ends the program.
\<close>

fun postfix_loop :: "string list \<Rightarrow> cint list \<Rightarrow> failure + (cint list \<times> bool)" where
  "postfix_loop [] operands = Inr (operands, False)"
| "postfix_loop (token # ts) operands =
     (if is_operator token then
        (case operands of
           op1 # op2 # rest \<Rightarrow>
             if token = ''+'' then postfix_loop ts ((op1 + op2) # rest)
             else if token = ''-'' then postfix_loop ts ((op1 - op2) # rest)
             else if token = ''*'' then postfix_loop ts ((op1 * op2) # rest)
             else if op2 = 0 then Inr (rest, True)
             else (case int_div op1 op2 of
                     Inl f \<Rightarrow> Inl f
                   | Inr result \<Rightarrow> postfix_loop ts (result # rest))
         | _ \<Rightarrow> Inr (operands, True))
      else
        (case stoi token of
           Inr number \<Rightarrow> postfix_loop ts (number # operands)
         | Inl _ \<Rightarrow> Inr (operands, True)))"

text \<open>The value \<open>calculate_postfix\<close> stores for an expression.\<close>

definition postfix_value :: "string \<Rightarrow> failure + CellValue" where
  "postfix_value expression =
     (case postfix_loop (tokens expression) [] of
        Inl f \<Rightarrow> Inl f
      | Inr (operands, error) \<Rightarrow>
          Inr (if length operands \<noteq> 1 \<or> error then CState Error else CInt (hd operands)))"

definition calculate_postfix ::
  "cint \<times> cint \<Rightarrow> string \<Rightarrow> spreadsheet \<Rightarrow> failure + spreadsheet" where
  "calculate_postfix cell_coords expression s =
     (case postfix_value expression of
        Inl f \<Rightarrow> Inl f
      | Inr v \<Rightarrow> Inr (s\<lparr>cells := cells_assign (cells s) cell_coords v\<rparr>))"

section \<open>Addresses\<close>

text \<open>
  \<open>coord_to_col\<close>: the loop runs while \<open>n >= 0\<close>; \<open>n\<close> only decreases, so the
  loop variable is read as a mathematical integer.
\<close>

function coord_to_col_loop :: "int \<Rightarrow> string \<Rightarrow> string" where
  "coord_to_col_loop n result =
     (if n \<ge> 0
      then coord_to_col_loop (n div 26 - 1) (char_of (65 + nat (n mod 26)) # result)
      else result)"
  by pat_completeness auto
termination
  by (relation "measure (\<lambda>(n, result). nat (n + 1))") auto

declare coord_to_col_loop.simps [simp del]

definition coord_to_col :: "cint \<Rightarrow> string" where
  "coord_to_col n = coord_to_col_loop (sint n) []"

text \<open>
  \<open>col_to_coord\<close>: \<open>result = result * 26 + (ch - 'A')\<close> for each character. It is
  called on runs of ASCII letters only, where the sign of \<open>char\<close> plays no part.
\<close>

definition col_to_coord :: "string \<Rightarrow> cint" where
  "col_to_coord col = foldl (\<lambda>result ch. result * 26 + (word_of_nat (of_char ch) - 65)) 0 col"

definition coords_to_address :: "cint \<times> cint \<Rightarrow> string" where
  "coords_to_address coords = coord_to_col (fst coords) @ to_string (snd coords)"

text \<open>
  \<open>address_to_coords\<close>: the leading letters are the column, \<open>std::stoi\<close> of the
  rest is the row. The exception of \<open>std::stoi\<close> is not caught here.
\<close>

definition address_to_coords :: "string \<Rightarrow> exception + (cint \<times> cint)" where
  "address_to_coords address =
     (let col = takeWhile isalpha address
      in case stoi (dropWhile isalpha address) of
           Inl e \<Rightarrow> Inl e
         | Inr row \<Rightarrow> Inr (col_to_coord col, row))"

definition contains_letter :: "string \<Rightarrow> bool" where
  "contains_letter str = list_ex isalpha str"

text \<open>\<open>std::regex_match\<close> against \<open>^[A-Za-z]+[0-9]+$\<close>.\<close>

definition is_letter_number_format :: "string \<Rightarrow> bool" where
  "is_letter_number_format cell =
     (takeWhile isalpha cell \<noteq> [] \<and> dropWhile isalpha cell \<noteq> [] \<and>
      list_all isdigit (dropWhile isalpha cell))"

section \<open>Loading a cell\<close>

text \<open>\<open>dependencies[token].second.push_back(cell_address)\<close> for each address token.\<close>

fun register_tokens :: "string \<Rightarrow> string list \<Rightarrow> registry \<Rightarrow> registry" where
  "register_tokens cell_address [] d = d"
| "register_tokens cell_address (token # ts) d =
     (if is_letter_number_format token
      then register_tokens cell_address ts
             (d(token \<mapsto> (fst (dep_entry d token), snd (dep_entry d token) @ [cell_address])))
      else register_tokens cell_address ts d)"

definition parse_tokens :: "cint \<times> cint \<Rightarrow> string \<Rightarrow> spreadsheet \<Rightarrow> failure + spreadsheet" where
  "parse_tokens cell_coords cell_contents s =
     (if contains_letter cell_contents then
        (let cell_address = coords_to_address cell_coords;
             d = dependencies s;
             d1 = (case d cell_address of
                     Some e \<Rightarrow> d(cell_address \<mapsto> (cell_contents, snd e))
                   | None \<Rightarrow> d(cell_address \<mapsto> (cell_contents, [])))
         in Inr (s\<lparr>dependencies := register_tokens cell_address (tokens cell_contents) d1\<rparr>))
      else calculate_postfix cell_coords cell_contents s)"

section \<open>Cycle detection and evaluation order\<close>

record dfs_state =
  marked :: "string set"
  recStack :: "string set"
  res :: "string list"

text \<open>
  The loop of \<open>topological_dfs_helper\<close> over \<open>dependencies[x].second\<close>, with the
  recursive call as a parameter. A back edge returns at once: \<open>x\<close> is put in front
  of \<open>res\<close> and stays in \<open>recStack\<close>.
\<close>

fun dfs_loop ::
  "(string \<Rightarrow> dfs_state \<Rightarrow> (bool \<times> dfs_state) option) \<Rightarrow> string \<Rightarrow> string list \<Rightarrow> bool \<Rightarrow>
   dfs_state \<Rightarrow> (bool \<times> dfs_state) option" where
  "dfs_loop call x [] has_cycle st =
     Some (has_cycle, st\<lparr>recStack := recStack st - {x}, res := x # res st\<rparr>)"
| "dfs_loop call x (w # ws) has_cycle st =
     (if w \<in> recStack st then Some (True, st\<lparr>res := x # res st\<rparr>)
      else if w \<notin> marked st then
        (case call w st of
           None \<Rightarrow> None
         | Some (c, st') \<Rightarrow> dfs_loop call x ws (has_cycle \<or> c) st')
      else dfs_loop call x ws has_cycle st)"

text \<open>
  \<open>topological_dfs_helper\<close>. The first argument bounds the depth of the recursion:
  \<open>None\<close> is a call chain deeper than the bound. \<open>dependencies[x]\<close> is a read here:
  every address the traversal reaches is a key, since loading enters each formula cell as a
  key before it lists the cell as a dependent.
\<close>

primrec topological_dfs_helper ::
  "nat \<Rightarrow> registry \<Rightarrow> string \<Rightarrow> dfs_state \<Rightarrow> (bool \<times> dfs_state) option" where
  "topological_dfs_helper 0 d x st = None"
| "topological_dfs_helper (Suc n) d x st =
     dfs_loop (topological_dfs_helper n d) x (snd (dep_entry d x)) False
       (st\<lparr>marked := insert x (marked st), recStack := insert x (recStack st)\<rparr>)"

text \<open>\<open>cells[coords] = CellState::Error\<close> for every address of \<open>res\<close>.\<close>

fun mark_errors :: "string list \<Rightarrow> cellgrid \<Rightarrow> exception + cellgrid" where
  "mark_errors [] g = Inr g"
| "mark_errors (cell # cs) g =
     (case address_to_coords cell of
        Inl e \<Rightarrow> Inl e
      | Inr coords \<Rightarrow> mark_errors cs (cells_assign g coords (CState Error)))"

text \<open>
  The loop of \<open>topological_sort_dependencies\<close> over the keys of \<open>dependencies\<close>. The
  order in which an \<open>unordered_map\<close> yields its keys is unspecified: it is the
  parameter \<open>keys\<close>.
\<close>

fun sort_loop ::
  "nat \<Rightarrow> registry \<Rightarrow> string list \<Rightarrow> dfs_state \<Rightarrow> cellgrid \<Rightarrow> failure + (string list \<times> cellgrid)" where
  "sort_loop fuel d [] st g = Inr (res st, g)"
| "sort_loop fuel d (key # ks) st g =
     (if key \<notin> marked st then
        (case topological_dfs_helper fuel d key st of
           None \<Rightarrow> Inl Depth_exceeded
         | Some (cyc, st') \<Rightarrow>
             if cyc then
               (case mark_errors (res st') g of
                  Inl e \<Rightarrow> Inl (Uncaught e)
                | Inr g' \<Rightarrow> sort_loop fuel d ks st' g')
             else sort_loop fuel d ks st' g)
      else sort_loop fuel d ks st g)"

definition topological_sort_dependencies ::
  "nat \<Rightarrow> string list \<Rightarrow> spreadsheet \<Rightarrow> failure + (string list \<times> spreadsheet)" where
  "topological_sort_dependencies fuel keys s =
     (case sort_loop fuel (dependencies s) keys \<lparr>marked = {}, recStack = {}, res = []\<rparr> (cells s) of
        Inl e \<Rightarrow> Inl e
      | Inr (r, g) \<Rightarrow> Inr (r, s\<lparr>cells := g\<rparr>))"

section \<open>Reference substitution and resolution\<close>

text \<open>
  The loop of \<open>resolve_references\<close>: the grid (a lookup inserts an empty column) and
  the resolved formula built so far. A failed lookup ends the loop with \<open>#ERR\<close>.
\<close>

fun resolve_loop :: "string list \<Rightarrow> cellgrid \<Rightarrow> string \<Rightarrow> exception + (cellgrid \<times> string)" where
  "resolve_loop [] g resolved_formula = Inr (g, resolved_formula)"
| "resolve_loop (token # ts) g resolved_formula =
     (if is_letter_number_format token then
        (case address_to_coords token of
           Inl e \<Rightarrow> Inl e
         | Inr coords \<Rightarrow>
             (let g1 = cells_index g (fst coords)
              in case cell_at g1 coords of
                   Some (CInt i) \<Rightarrow> resolve_loop ts g1 (resolved_formula @ '' '' @ to_string i)
                 | Some (CState _) \<Rightarrow> Inr (g1, ''#ERR'')
                 | None \<Rightarrow> Inr (g1, ''#ERR'')))
      else resolve_loop ts g (resolved_formula @ '' '' @ token))"

definition resolve_references :: "string \<Rightarrow> spreadsheet \<Rightarrow> exception + spreadsheet" where
  "resolve_references cell_address s =
     (let e = dep_entry (dependencies s) cell_address
      in case resolve_loop (tokens (fst e)) (cells s) [] of
           Inl ex \<Rightarrow> Inl ex
         | Inr (g, resolved_formula) \<Rightarrow>
             Inr (s\<lparr>cells := g,
                    dependencies := (dependencies s)(cell_address \<mapsto> (resolved_formula, snd e))\<rparr>))"

text \<open>One iteration of the loop of \<open>resolve_dependencies\<close>.\<close>

definition resolve_step :: "string \<Rightarrow> spreadsheet \<Rightarrow> failure + spreadsheet" where
  "resolve_step cell_address s =
     (case resolve_references cell_address s of
        Inl ex \<Rightarrow> Inl (Uncaught ex)
      | Inr s1 \<Rightarrow>
          (let formula = fst (dep_entry (dependencies s1) cell_address)
           in if formula \<noteq> [] then
                (case address_to_coords cell_address of
                   Inl ex \<Rightarrow> Inl (Uncaught ex)
                 | Inr coords \<Rightarrow> calculate_postfix coords formula s1)
              else Inr s1))"

text \<open>The loop of \<open>resolve_dependencies\<close> over the sorted addresses.\<close>

fun resolve_all :: "string list \<Rightarrow> spreadsheet \<Rightarrow> failure + spreadsheet" where
  "resolve_all [] s = Inr s"
| "resolve_all (cell_address # cs) s =
     (case resolve_step cell_address s of
        Inl f \<Rightarrow> Inl f
      | Inr s1 \<Rightarrow> resolve_all cs s1)"

definition resolve_dependencies :: "nat \<Rightarrow> string list \<Rightarrow> spreadsheet \<Rightarrow> failure + spreadsheet" where
  "resolve_dependencies fuel keys s =
     (case topological_sort_dependencies fuel keys s of
        Inl e \<Rightarrow> Inl e
      | Inr (sorted_dependencies, s1) \<Rightarrow> resolve_all sorted_dependencies s1)"

section \<open>Loading the input\<close>

text \<open>
  \<open>std::getline\<close> with a delimiter, repeated until it fails: the fields of a string.
  A read that extracts nothing fails, so an empty last field is not produced.
\<close>

fun getline_from :: "char \<Rightarrow> string \<Rightarrow> string \<Rightarrow> string list" where
  "getline_from delim cur [] = (if cur = [] then [] else [cur])"
| "getline_from delim cur (c # cs) =
     (if c = delim then cur # getline_from delim [] cs
      else getline_from delim (cur @ [c]) cs)"

definition getlines :: "char \<Rightarrow> string \<Rightarrow> string list" where
  "getlines delim s = getline_from delim [] s"

definition int_max :: "cint \<Rightarrow> cint \<Rightarrow> cint" where
  "int_max a b = (if sint a < sint b then b else a)"

text \<open>The inner loop of \<open>parse_input\<close>: the cells of one line, from column \<open>col\<close>.\<close>

fun parse_cells ::
  "cint \<Rightarrow> cint \<Rightarrow> string list \<Rightarrow> spreadsheet \<Rightarrow> failure + (cint \<times> spreadsheet)" where
  "parse_cells row col [] s = Inr (col, s)"
| "parse_cells row col (cell # cs) s =
     (case parse_tokens (col, row) cell s of
        Inl f \<Rightarrow> Inl f
      | Inr s1 \<Rightarrow> parse_cells row (col + 1) cs s1)"

text \<open>The outer loop: the lines of the file, from row \<open>row\<close>.\<close>

fun parse_lines ::
  "cint \<Rightarrow> string list \<Rightarrow> spreadsheet \<Rightarrow> failure + (cint \<times> spreadsheet)" where
  "parse_lines row [] s = Inr (row, s)"
| "parse_lines row (line # ls) s =
     (case parse_cells row 0 (getlines CHR '','' line) s of
        Inl f \<Rightarrow> Inl f
      | Inr (col, s1) \<Rightarrow>
          parse_lines (row + 1) ls (s1\<lparr>max_col := int_max (max_col s1) (col - 1)\<rparr>))"

text \<open>
  \<open>parse_input\<close>, on the contents of the file. \<open>fuel\<close> bounds the recursion depth
  of the traversal and \<open>keys\<close> is the iteration order of \<open>dependencies\<close>.
\<close>

definition parse_input :: "nat \<Rightarrow> string list \<Rightarrow> string \<Rightarrow> spreadsheet \<Rightarrow> failure + spreadsheet" where
  "parse_input fuel keys contents s =
     (case parse_lines 0 (getlines CHR 0x0A contents) s of
        Inl f \<Rightarrow> Inl f
      | Inr (row, s1) \<Rightarrow>
          (case resolve_dependencies fuel keys s1 of
             Inl f \<Rightarrow> Inl f
           | Inr s2 \<Rightarrow> Inr (s2\<lparr>max_row := row - 1\<rparr>)))"


section \<open>Observing a run\<close>

text \<open>The state after the loading loops of \<open>parse_input\<close>, started on a fresh object.\<close>

definition loaded :: "string \<Rightarrow> failure + spreadsheet" where
  "loaded contents =
     (case parse_lines 0 (getlines CHR 0x0A contents) clear of
        Inl f \<Rightarrow> Inl f
      | Inr (row, s) \<Rightarrow> Inr s)"

text \<open>What an observation \<open>f\<close> sees of the state after loading.\<close>

definition after_loading :: "string \<Rightarrow> (spreadsheet \<Rightarrow> 'a) \<Rightarrow> failure + 'a" where
  "after_loading contents f = (case loaded contents of Inl e \<Rightarrow> Inl e | Inr s \<Rightarrow> Inr (f s))"

text \<open>What a coordinate holds when a run has ended.\<close>

definition value_at :: "failure + spreadsheet \<Rightarrow> cint \<times> cint \<Rightarrow> failure + CellValue option" where
  "value_at r p = (case r of Inl e \<Rightarrow> Inl e | Inr s \<Rightarrow> Inr (cell_at (cells s) p))"

text \<open>The order \<open>topological_sort_dependencies\<close> returns.\<close>

definition sorted_order :: "failure + (string list \<times> spreadsheet) \<Rightarrow> failure + string list" where
  "sorted_order r = (case r of Inl e \<Rightarrow> Inl e | Inr (order, s) \<Rightarrow> Inr order)"

text \<open>No coordinate of the grid holds the \<open>Empty\<close> variant.\<close>

definition no_Empty :: "cellgrid \<Rightarrow> bool" where
  "no_Empty g = (\<forall>p. cell_at g p \<noteq> Some (CState Empty))"


section \<open>Inputs and the address pattern of the specification\<close>

text \<open>
  The address pattern of the specification: one or more uppercase letters followed by one
  or more digits.
\<close>

definition spec_address_pattern :: "string \<Rightarrow> bool" where
  "spec_address_pattern token =
     (takeWhile isupper token \<noteq> [] \<and> dropWhile isupper token \<noteq> [] \<and>
      list_all isdigit (dropWhile isupper token))"

text \<open>A line of the input with the given cells, and the contents of a file with the
  given lines.\<close>

fun csv_line :: "string list \<Rightarrow> string" where
  "csv_line [] = []"
| "csv_line [c] = c"
| "csv_line (c # cs) = c @ '','' @ csv_line cs"

definition file_of :: "string list \<Rightarrow> string" where
  "file_of ls = concat (map (\<lambda>l. l @ [CHR 0x0A]) ls)"

text \<open>The formula text the registry holds for an address after \<open>resolve_references\<close>.\<close>

definition formula_after :: "exception + spreadsheet \<Rightarrow> string \<Rightarrow> exception + string" where
  "formula_after r cell_address =
     (case r of Inl e \<Rightarrow> Inl e | Inr s \<Rightarrow> Inr (fst (dep_entry (dependencies s) cell_address)))"


section \<open>The keys of the registry\<close>

text \<open>
  The addresses that loading a cell, a line and a file enters into \<open>dependencies\<close>:
  the address of each formula cell and each address token of its formula.
\<close>

definition cell_keys :: "cint \<times> cint \<Rightarrow> string \<Rightarrow> string list" where
  "cell_keys coords text =
     (if contains_letter text
      then coords_to_address coords # filter is_letter_number_format (tokens text)
      else [])"

fun row_keys :: "cint \<Rightarrow> cint \<Rightarrow> string list \<Rightarrow> string list" where
  "row_keys row col [] = []"
| "row_keys row col (cell # cs) = cell_keys (col, row) cell @ row_keys row (col + 1) cs"

fun file_keys :: "cint \<Rightarrow> string list \<Rightarrow> string list" where
  "file_keys row [] = []"
| "file_keys row (line # ls) = row_keys row 0 (getlines CHR '','' line) @ file_keys (row + 1) ls"

text \<open>
  \<open>std::unordered_map\<close> fixes no iteration order. The orders possible for a registry
  with the given keys are all arrangements of the keys.
\<close>

fun interleavings :: "'a \<Rightarrow> 'a list \<Rightarrow> 'a list list" where
  "interleavings x [] = [[x]]"
| "interleavings x (y # ys) = (x # y # ys) # map ((#) y) (interleavings x ys)"

fun orderings :: "'a list \<Rightarrow> 'a list list" where
  "orderings [] = [[]]"
| "orderings (x # xs) = concat (map (interleavings x) (orderings xs))"


section \<open>The dependency graph\<close>

text \<open>
  The edges the traversal follows: from an address to each address whose formula contains
  it as a token (its entries in \<open>dependencies[x].second\<close>).
\<close>

definition dep_edges :: "registry \<Rightarrow> (string \<times> string) set" where
  "dep_edges d = {(x, w). w \<in> set (snd (dep_entry d x))}"

text \<open>Every address that a key lists as a dependent is itself a key.\<close>

definition closed_registry :: "registry \<Rightarrow> bool" where
  "closed_registry d = (\<forall>k\<in>dom d. set (snd (dep_entry d k)) \<subseteq> dom d)"

text \<open>An order respects the edges: all dependents of an address come after it.\<close>

fun respects_edges :: "registry \<Rightarrow> string list \<Rightarrow> bool" where
  "respects_edges d [] = True"
| "respects_edges d (x # xs) = (set (snd (dep_entry d x)) \<subseteq> set xs \<and> respects_edges d xs)"

text \<open>
  The state of a traversal that has met no back edge: the addresses on the call stack are
  marked, \<open>res\<close> lists each finished address once, and \<open>res\<close> respects the edges.
\<close>

definition dfs_inv :: "registry \<Rightarrow> dfs_state \<Rightarrow> bool" where
  "dfs_inv d st =
     (recStack st \<subseteq> marked st \<and> set (res st) = marked st - recStack st \<and>
      distinct (res st) \<and> respects_edges d (res st))"

text \<open>Each address token of the formula of a key lists the key as a dependent.\<close>

definition references_registered :: "registry \<Rightarrow> bool" where
  "references_registered d =
     (\<forall>k t. t \<in> set (tokens (fst (dep_entry d k))) \<and> is_letter_number_format t
        \<longrightarrow> k \<in> set (snd (dep_entry d t)))"


section \<open>The postfix evaluator: properties\<close>

lemma postfix_loop_append:
  "postfix_loop (pre @ ts) st0 =
     (case postfix_loop pre st0 of
        Inl f \<Rightarrow> Inl f
      | Inr (st, err) \<Rightarrow> if err then Inr (st, True) else postfix_loop ts st)"
proof (induction pre arbitrary: st0)
  case Nil
  then show ?case by simp
next
  case (Cons token ts')
  show ?case
  proof (cases "is_operator token")
    case False
    show ?thesis
    proof (cases "stoi token")
      case (Inl e)
      with False show ?thesis by simp
    next
      case (Inr number)
      with False Cons [of "number # st0"] show ?thesis by simp
    qed
  next
    case True
    show ?thesis
    proof (cases st0)
      case Nil
      with True show ?thesis by simp
    next
      case c1: (Cons op1 r1)
      show ?thesis
      proof (cases r1)
        case Nil
        with True c1 show ?thesis by simp
      next
        case c2: (Cons op2 rest)
        consider (plus) "token = ''+''"
          | (minus) "token \<noteq> ''+''" "token = ''-''"
          | (times) "token \<noteq> ''+''" "token \<noteq> ''-''" "token = ''*''"
          | (zero) "token \<noteq> ''+''" "token \<noteq> ''-''" "token \<noteq> ''*''" "op2 = 0"
          | (quot) "token \<noteq> ''+''" "token \<noteq> ''-''" "token \<noteq> ''*''" "op2 \<noteq> 0"
          by blast
        then show ?thesis
        proof cases
          case plus
          with True c1 c2 Cons [of "(op1 + op2) # rest"] show ?thesis by simp
        next
          case minus
          with True c1 c2 Cons [of "(op1 - op2) # rest"] show ?thesis by simp
        next
          case times
          with True c1 c2 Cons [of "(op1 * op2) # rest"] show ?thesis by simp
        next
          case zero
          with True c1 c2 show ?thesis by simp
        next
          case quot
          show ?thesis
          proof (cases "int_div op1 op2")
            case (Inl f)
            with quot True c1 c2 show ?thesis by simp
          next
            case (Inr result)
            with quot True c1 c2 Cons [of "result # rest"] show ?thesis by simp
          qed
        qed
      qed
    qed
  qed
qed

text \<open>
  The division of the least \<open>int\<close> by \<open>-1\<close> ends the program: the expression leaves no
  value, and no \<open>Error\<close> either.
\<close>

lemma division_overflow_traps: "postfix_value ''-1 -2147483648 /'' = Inl Arithmetic_trap"
  by code_simp

text \<open>
  C1. The claim: a plain postfix expression in valid form evaluates to its value under
  standard postfix semantics. The code pops the second operand of the expression into
  \<open>op1\<close> and the first into \<open>op2\<close> and computes \<open>op1 - op2\<close>, so \<open>5 3 -\<close>,
  which is \<open>2\<close> in postfix notation, evaluates to \<open>-2\<close>.
\<close>

theorem postfix_operands_swapped:
  "postfix_value ''5 3 -'' = Inr (CInt (- 2)) \<and> postfix_value ''6 3 /'' = Inr (CInt 0)"
  by code_simp

text \<open>Neither stored value is the value of the expression, which is \<open>2\<close> both times.\<close>

theorem postfix_operands_swapped_witness:
  "postfix_value ''5 3 -'' \<noteq> Inr (CInt 2) \<and> postfix_value ''6 3 /'' \<noteq> Inr (CInt 2)"
  using postfix_operands_swapped by simp

text \<open>
  C2. The claim: \<open>5 0 /\<close> evaluates to \<open>Error\<close>. The code tests the first operand
  of the expression for zero, not the divisor: \<open>5 0 /\<close> is stored as \<open>0\<close>, and
  \<open>0 5 /\<close> is the expression that is stored as \<open>Error\<close>.
\<close>

theorem postfix_division_by_zero_missed:
  "postfix_value ''5 0 /'' = Inr (CInt 0) \<and> postfix_value ''0 5 /'' = Inr (CState Error)"
  by code_simp

theorem postfix_division_by_zero_missed_witness:
  "postfix_value ''5 0 /'' \<noteq> Inr (CState Error)"
  using postfix_division_by_zero_missed by simp

text \<open>
  C7. Whenever the loop reaches an operator with fewer than two operands on the stack
  (the tokens before it were consumed without failure), or the stack does not hold exactly
  one value when the loop ends, the value stored is \<open>Error\<close>.
\<close>

theorem postfix_failure_is_Error:
  assumes "(\<exists>pre op post st. tokens expression = pre @ op # post \<and> is_operator op \<and>
              postfix_loop pre [] = Inr (st, False) \<and> length st < 2)
           \<or> (\<exists>st err. postfix_loop (tokens expression) [] = Inr (st, err) \<and> length st \<noteq> 1)"
  shows "postfix_value expression = Inr (CState Error)"
  using assms
proof
  assume "\<exists>pre op post st. tokens expression = pre @ op # post \<and> is_operator op \<and>
              postfix_loop pre [] = Inr (st, False) \<and> length st < 2"
  then obtain pre op post st where t: "tokens expression = pre @ op # post"
    and op: "is_operator op" and pre: "postfix_loop pre [] = Inr (st, False)"
    and len: "length st < 2"
    by blast
  from len have short: "st = [] \<or> (\<exists>a. st = [a])"
    by (cases st) (auto simp: length_Suc_conv less_Suc_eq)
  from op short have "postfix_loop (op # post) st = Inr (st, True)"
    by auto
  with t pre have "postfix_loop (tokens expression) [] = Inr (st, True)"
    by (simp add: postfix_loop_append)
  then show ?thesis
    by (simp add: postfix_value_def)
next
  assume "\<exists>st err. postfix_loop (tokens expression) [] = Inr (st, err) \<and> length st \<noteq> 1"
  then show ?thesis
    by (auto simp: postfix_value_def)
qed

text \<open>The cell contents \<open>7 +\<close> (an operator with one operand) and \<open>1 2\<close> (two values
  left on the stack).\<close>

theorem postfix_failure_is_Error_witness:
  "postfix_value ''7 +'' = Inr (CState Error) \<and> postfix_value ''1 2'' = Inr (CState Error)"
proof -
  have tk: "tokens ''7 +'' = [''7''] @ ''+'' # []"
    by code_simp
  have pre: "postfix_loop [''7''] [] = Inr ([7], False)"
    by code_simp
  have h1: "\<exists>pre op post st. tokens ''7 +'' = pre @ op # post \<and> is_operator op \<and>
              postfix_loop pre [] = Inr (st, False) \<and> length st < 2"
    using tk pre
    by (intro exI[of _ "[''7'']"] exI[of _ "''+''"] exI[of _ "[]"] exI[of _ "[7]"])
       (simp add: is_operator_def)
  have "postfix_loop (tokens ''1 2'') [] = Inr ([2, 1], False)"
    by code_simp
  then have h2: "\<exists>st err. postfix_loop (tokens ''1 2'') [] = Inr (st, err) \<and> length st \<noteq> 1"
    by (intro exI[of _ "[2, 1]"] exI[of _ False]) simp
  from postfix_failure_is_Error [of "''7 +''"] postfix_failure_is_Error [of "''1 2''"] h1 h2
  show ?thesis by blast
qed

text \<open>
  C8. The claim: a token that is neither an operator nor a syntactically valid integer
  makes the evaluation yield \<open>Error\<close>. \<open>std::stoi\<close> converts the longest numeric
  prefix and ignores the rest, so the cell contents \<open>7$\<close> are stored as \<open>7\<close> and
  \<open>3 4.5 +\<close> as \<open>7\<close>.
\<close>

theorem postfix_trailing_characters_accepted:
  "\<not> is_operator ''7$'' \<and> postfix_value ''7$'' = Inr (CInt 7) \<and>
   postfix_value ''3 4.5 +'' = Inr (CInt 7)"
  by code_simp

theorem postfix_trailing_characters_accepted_witness:
  "postfix_value ''7$'' \<noteq> Inr (CState Error) \<and> postfix_value ''3 4.5 +'' \<noteq> Inr (CState Error)"
  using postfix_trailing_characters_accepted by simp


section \<open>Loading: what every cell preserves, the whole file preserves\<close>

lemma parse_cells_preserves:
  assumes step: "\<And>coords text s s'. P s \<Longrightarrow> parse_tokens coords text s = Inr s' \<Longrightarrow> P s'"
  shows "P s \<Longrightarrow> parse_cells row col cs s = Inr (col', s') \<Longrightarrow> P s'"
proof (induction cs arbitrary: col s)
  case Nil
  then show ?case by simp
next
  case (Cons c cs)
  from Cons.prems(2) obtain s1 where pt: "parse_tokens (col, row) c s = Inr s1"
    and rest: "parse_cells row (col + 1) cs s1 = Inr (col', s')"
    by (auto split: sum.splits)
  from Cons.prems(1) pt have "P s1"
    by (rule step)
  from Cons.IH [OF this rest] show ?case .
qed

lemma parse_lines_preserves:
  assumes step: "\<And>coords text s s'. P s \<Longrightarrow> parse_tokens coords text s = Inr s' \<Longrightarrow> P s'"
    and width: "\<And>s m. P s \<Longrightarrow> P (s\<lparr>max_col := m\<rparr>)"
  shows "P s \<Longrightarrow> parse_lines row ls s = Inr (row', s') \<Longrightarrow> P s'"
proof (induction ls arbitrary: row s)
  case Nil
  then show ?case by simp
next
  case (Cons l ls)
  from Cons.prems(2) obtain col s1 where
    pc: "parse_cells row 0 (getlines CHR '','' l) s = Inr (col, s1)"
    and rest: "parse_lines (row + 1) ls (s1\<lparr>max_col := int_max (max_col s1) (col - 1)\<rparr>)
                 = Inr (row', s')"
    by (auto split: sum.splits)
  from step Cons.prems(1) pc have "P s1"
    by (rule parse_cells_preserves)
  then have "P (s1\<lparr>max_col := int_max (max_col s1) (col - 1)\<rparr>)"
    by (rule width)
  from Cons.IH [OF this rest] show ?case .
qed

lemma loaded_preserves:
  assumes step: "\<And>coords text s s'. P s \<Longrightarrow> parse_tokens coords text s = Inr s' \<Longrightarrow> P s'"
    and width: "\<And>s m. P s \<Longrightarrow> P (s\<lparr>max_col := m\<rparr>)"
    and fresh: "P clear"
    and load: "loaded contents = Inr s"
  shows "P s"
proof -
  from load obtain row where "parse_lines 0 (getlines CHR 0x0A contents) clear = Inr (row, s)"
    by (auto simp: loaded_def split: sum.splits)
  with step width fresh show ?thesis
    by (rule parse_lines_preserves)
qed

lemma after_loading_Inr:
  "after_loading contents f = Inr v \<longleftrightarrow> (\<exists>s. loaded contents = Inr s \<and> f s = v)"
  by (auto simp: after_loading_def split: sum.splits)


section \<open>The grid: lookups after writes\<close>

lemma cell_at_assign:
  "cell_at (cells_assign g p v) q = (if q = p then Some v else cell_at g q)"
  by (cases p; cases q) (auto simp: cell_at_def cells_assign_def split: option.splits)

lemma cell_at_index: "cell_at (cells_index g col) q = cell_at g q"
  by (auto simp: cell_at_def cells_index_def split: option.splits)

lemma postfix_value_not_Empty: "postfix_value expression \<noteq> Inr (CState Empty)"
  by (simp add: postfix_value_def split: sum.splits prod.splits)

lemma tokens_from_whitespace: "list_all isspace cs \<Longrightarrow> tokens_from [] cs = []"
  by (induction cs) auto

lemma isspace_not_isalpha: "isspace c \<Longrightarrow> \<not> isalpha c"
  by (auto simp: isspace_def isalpha_def isupper_def islower_def Let_def)

lemma whitespace_no_letter: "list_all isspace cs \<Longrightarrow> \<not> contains_letter cs"
  by (induction cs) (auto simp: contains_letter_def isspace_not_isalpha)

lemma postfix_value_whitespace:
  "list_all isspace cs \<Longrightarrow> postfix_value cs = Inr (CState Error)"
  by (simp add: postfix_value_def tokens_def tokens_from_whitespace)

subsection \<open>Every write keeps \<open>Empty\<close> out of the grid\<close>

lemma no_Empty_assign: "no_Empty g \<Longrightarrow> v \<noteq> CState Empty \<Longrightarrow> no_Empty (cells_assign g p v)"
  by (simp add: no_Empty_def cell_at_assign)

lemma no_Empty_index: "no_Empty g \<Longrightarrow> no_Empty (cells_index g col)"
  by (simp add: no_Empty_def cell_at_index)

lemma no_Empty_calculate_postfix:
  assumes "no_Empty (cells s)" and "calculate_postfix p e s = Inr s'"
  shows "no_Empty (cells s')"
proof -
  from assms(2) obtain v where v: "postfix_value e = Inr v"
    and s': "s' = s\<lparr>cells := cells_assign (cells s) p v\<rparr>"
    by (auto simp: calculate_postfix_def split: sum.splits)
  from v postfix_value_not_Empty [of e] have "v \<noteq> CState Empty"
    by auto
  with assms(1) s' show ?thesis
    by (simp add: no_Empty_assign)
qed

lemma no_Empty_parse_tokens:
  assumes "no_Empty (cells s)" and "parse_tokens p e s = Inr s'"
  shows "no_Empty (cells s')"
proof (cases "contains_letter e")
  case True
  with assms(2) have "cells s' = cells s"
    by (auto simp: parse_tokens_def Let_def)
  with assms(1) show ?thesis by simp
next
  case False
  with assms(2) have "calculate_postfix p e s = Inr s'"
    by (simp add: parse_tokens_def)
  with assms(1) show ?thesis by (rule no_Empty_calculate_postfix)
qed

lemma no_Empty_parse_cells:
  "no_Empty (cells s) \<Longrightarrow> parse_cells row col cs s = Inr (col', s') \<Longrightarrow> no_Empty (cells s')"
proof (induction cs arbitrary: col s)
  case Nil
  then show ?case by simp
next
  case (Cons c cs)
  from Cons.prems(2) obtain s1 where pt: "parse_tokens (col, row) c s = Inr s1"
    and rest: "parse_cells row (col + 1) cs s1 = Inr (col', s')"
    by (auto split: sum.splits)
  from Cons.prems(1) pt have "no_Empty (cells s1)"
    by (rule no_Empty_parse_tokens)
  from Cons.IH [OF this rest] show ?case .
qed

lemma no_Empty_parse_lines:
  "no_Empty (cells s) \<Longrightarrow> parse_lines row ls s = Inr (row', s') \<Longrightarrow> no_Empty (cells s')"
proof (induction ls arbitrary: row s)
  case Nil
  then show ?case by simp
next
  case (Cons l ls)
  from Cons.prems(2) obtain col s1 where
    pc: "parse_cells row 0 (getlines CHR '','' l) s = Inr (col, s1)"
    and rest: "parse_lines (row + 1) ls (s1\<lparr>max_col := int_max (max_col s1) (col - 1)\<rparr>)
                 = Inr (row', s')"
    by (auto split: sum.splits)
  from Cons.prems(1) pc have "no_Empty (cells s1)"
    by (rule no_Empty_parse_cells)
  then have "no_Empty (cells (s1\<lparr>max_col := int_max (max_col s1) (col - 1)\<rparr>))" by simp
  from Cons.IH [OF this rest] show ?case .
qed

lemma no_Empty_mark_errors:
  "no_Empty g \<Longrightarrow> mark_errors cs g = Inr g' \<Longrightarrow> no_Empty g'"
proof (induction cs arbitrary: g)
  case Nil
  then show ?case by simp
next
  case (Cons c cs)
  from Cons.prems(2) obtain coords where
    "mark_errors cs (cells_assign g coords (CState Error)) = Inr g'"
    by (auto split: sum.splits)
  moreover from Cons.prems(1) have "no_Empty (cells_assign g coords (CState Error))"
    by (simp add: no_Empty_assign)
  ultimately show ?case
    using Cons.IH by blast
qed

lemma no_Empty_sort_loop:
  "no_Empty g \<Longrightarrow> sort_loop fuel d ks st g = Inr (r, g') \<Longrightarrow> no_Empty g'"
proof (induction ks arbitrary: st g)
  case Nil
  then show ?case by simp
next
  case (Cons key ks)
  show ?case
  proof (cases "key \<in> marked st")
    case True
    with Cons show ?thesis by simp
  next
    case False
    with Cons.prems(2) obtain cyc st' where
      h: "topological_dfs_helper fuel d key st = Some (cyc, st')"
      by (auto split: option.splits)
    show ?thesis
    proof (cases cyc)
      case True
      with False h Cons.prems(2) obtain g1 where m: "mark_errors (res st') g = Inr g1"
        and r: "sort_loop fuel d ks st' g1 = Inr (r, g')"
        by (auto split: sum.splits)
      from no_Empty_mark_errors [OF Cons.prems(1) m] Cons.IH r show ?thesis by blast
    next
      case no: False
      with False h Cons.prems(2) have "sort_loop fuel d ks st' g = Inr (r, g')"
        by simp
      with Cons.IH Cons.prems(1) show ?thesis by blast
    qed
  qed
qed

lemma no_Empty_resolve_loop:
  "no_Empty g \<Longrightarrow> resolve_loop ts g r = Inr (g', r') \<Longrightarrow> no_Empty g'"
proof (induction ts arbitrary: g r)
  case Nil
  then show ?case by simp
next
  case (Cons t ts)
  show ?case
  proof (cases "is_letter_number_format t")
    case False
    with Cons show ?thesis by simp
  next
    case True
    with Cons.prems(2) obtain coords where c: "address_to_coords t = Inr coords"
      by (auto split: sum.splits)
    have ne: "no_Empty (cells_index g (fst coords))"
      using Cons.prems(1) by (rule no_Empty_index)
    show ?thesis
    proof (cases "cell_at (cells_index g (fst coords)) coords")
      case None
      with True c Cons.prems(2) ne show ?thesis by (simp add: Let_def)
    next
      case (Some v)
      show ?thesis
      proof (cases v)
        case (CInt i)
        with Some True c Cons.prems(2) have
          "resolve_loop ts (cells_index g (fst coords)) (r @ '' '' @ to_string i) = Inr (g', r')"
          by (simp add: Let_def)
        with Cons.IH ne show ?thesis by blast
      next
        case (CState x)
        with Some True c Cons.prems(2) ne show ?thesis by (simp add: Let_def)
      qed
    qed
  qed
qed

lemma no_Empty_resolve_references:
  "no_Empty (cells s) \<Longrightarrow> resolve_references a s = Inr s' \<Longrightarrow> no_Empty (cells s')"
  by (auto simp: resolve_references_def Let_def split: sum.splits prod.splits
           dest: no_Empty_resolve_loop)

lemma no_Empty_resolve_step:
  assumes "no_Empty (cells s)" and "resolve_step a s = Inr s'"
  shows "no_Empty (cells s')"
proof -
  from assms(2) obtain s1 where rr: "resolve_references a s = Inr s1"
    by (auto simp: resolve_step_def split: sum.splits)
  from assms(1) rr have ne: "no_Empty (cells s1)"
    by (rule no_Empty_resolve_references)
  show ?thesis
  proof (cases "fst (dep_entry (dependencies s1) a) = []")
    case True
    with assms(2) rr have "s' = s1"
      by (simp add: resolve_step_def)
    with ne show ?thesis by simp
  next
    case False
    with assms(2) rr obtain coords where
      "calculate_postfix coords (fst (dep_entry (dependencies s1) a)) s1 = Inr s'"
      by (auto simp: resolve_step_def Let_def split: sum.splits)
    with ne show ?thesis by (rule no_Empty_calculate_postfix)
  qed
qed

lemma no_Empty_resolve_all:
  "no_Empty (cells s) \<Longrightarrow> resolve_all cs s = Inr s' \<Longrightarrow> no_Empty (cells s')"
  by (induction cs arbitrary: s) (auto split: sum.splits dest: no_Empty_resolve_step)

lemma no_Empty_topological_sort:
  "no_Empty (cells s) \<Longrightarrow> topological_sort_dependencies fuel keys s = Inr (r, s') \<Longrightarrow>
   no_Empty (cells s')"
  by (auto simp: topological_sort_dependencies_def split: sum.splits prod.splits
           dest: no_Empty_sort_loop)

lemma no_Empty_resolve_dependencies:
  "no_Empty (cells s) \<Longrightarrow> resolve_dependencies fuel keys s = Inr s' \<Longrightarrow> no_Empty (cells s')"
  by (auto simp: resolve_dependencies_def split: sum.splits prod.splits
           dest: no_Empty_topological_sort no_Empty_resolve_all)

text \<open>
  C10. From a grid without \<open>Empty\<close> (a fresh object has an empty grid), the grid after
  loading and resolution holds \<open>Empty\<close> at no coordinate: every coordinate present
  holds an integer or \<open>Error\<close>. A cell whose text is empty or all whitespace is stored
  as \<open>Error\<close>.
\<close>

theorem grid_never_holds_Empty:
  "(no_Empty (cells s) \<and> parse_input fuel keys contents s = Inr s' \<longrightarrow>
      (\<forall>p v. cell_at (cells s') p = Some v \<longrightarrow> v = CState Error \<or> (\<exists>i. v = CInt i))) \<and>
   (list_all isspace text \<longrightarrow>
      (\<exists>s1. parse_tokens coords text s = Inr s1 \<and>
            cell_at (cells s1) coords = Some (CState Error)))"
proof (intro conjI impI allI)
  fix p v
  assume a: "no_Empty (cells s) \<and> parse_input fuel keys contents s = Inr s'"
    and v: "cell_at (cells s') p = Some v"
  from a obtain row s1 s2 where
    pl: "parse_lines 0 (getlines CHR 0x0A contents) s = Inr (row, s1)"
    and rd: "resolve_dependencies fuel keys s1 = Inr s2"
    and s': "s' = s2\<lparr>max_row := row - 1\<rparr>"
    by (auto simp: parse_input_def split: sum.splits)
  from a pl have "no_Empty (cells s1)"
    by (blast intro: no_Empty_parse_lines)
  from this rd have "no_Empty (cells s2)"
    by (rule no_Empty_resolve_dependencies)
  then have "cell_at (cells s2) p \<noteq> Some (CState Empty)"
    unfolding no_Empty_def by blast
  with s' v have "v \<noteq> CState Empty"
    by auto
  then show "v = CState Error \<or> (\<exists>i. v = CInt i)"
    by (cases v; rename_tac st; case_tac st) auto
next
  assume "list_all isspace text"
  then show "\<exists>s1. parse_tokens coords text s = Inr s1 \<and>
            cell_at (cells s1) coords = Some (CState Error)"
    by (simp add: parse_tokens_def whitespace_no_letter calculate_postfix_def cell_at_assign
                  postfix_value_whitespace)
qed

text \<open>The input \<open>B5 1 +, ,7\<close>: a formula, a blank cell and a number, on a fresh object.\<close>

theorem grid_never_holds_Empty_witness:
  "\<exists>s'. parse_input 2 [''A0'', ''B5''] ''B5 1 +, ,7'' clear = Inr s' \<and>
        cell_at (cells s') (0, 0) = Some (CState Error) \<and>
        cell_at (cells s') (1, 0) = Some (CState Error) \<and>
        cell_at (cells s') (2, 0) = Some (CInt 7) \<and>
        cell_at (cells s') (1, 5) \<noteq> Some (CState Empty) \<and>
        value_at (parse_tokens (1, 0) '' '' clear) (1, 0) = Inr (Some (CState Error))"
proof -
  have run: "value_at (parse_input 2 [''A0'', ''B5''] ''B5 1 +, ,7'' clear) (0, 0) = Inr (Some (CState Error))
      \<and> value_at (parse_input 2 [''A0'', ''B5''] ''B5 1 +, ,7'' clear) (1, 0) = Inr (Some (CState Error))
      \<and> value_at (parse_input 2 [''A0'', ''B5''] ''B5 1 +, ,7'' clear) (2, 0) = Inr (Some (CInt 7))"
    by code_simp
  then obtain s' where s': "parse_input 2 [''A0'', ''B5''] ''B5 1 +, ,7'' clear = Inr s'"
    by (cases "parse_input 2 [''A0'', ''B5''] ''B5 1 +, ,7'' clear") (auto simp: value_at_def)
  have fresh: "no_Empty (cells clear)"
    by (simp add: no_Empty_def clear_def cell_at_def)
  have blank: "list_all isspace '' ''"
    by (simp add: isspace_def)
  from grid_never_holds_Empty [of clear 2 "[''A0'', ''B5'']" "''B5 1 +, ,7''" s' "'' ''" "(1, 0)"]
    fresh s' blank
  have "(\<forall>p v. cell_at (cells s') p = Some v \<longrightarrow> v = CState Error \<or> (\<exists>i. v = CInt i))"
    and "value_at (parse_tokens (1, 0) '' '' clear) (1, 0) = Inr (Some (CState Error))"
    by (auto simp: value_at_def)
  moreover from this(1) have "cell_at (cells s') (1, 5) \<noteq> Some (CState Empty)"
    by fastforce
  moreover from run s' have "cell_at (cells s') (0, 0) = Some (CState Error)"
    "cell_at (cells s') (1, 0) = Some (CState Error)" "cell_at (cells s') (2, 0) = Some (CInt 7)"
    by (simp_all add: value_at_def)
  ultimately show ?thesis using s' by blast
qed

section \<open>Reference substitution: properties\<close>

lemma resolve_loop_cell_at:
  "resolve_loop ts g r = Inr (g', r') \<Longrightarrow> cell_at g' p = cell_at g p"
proof (induction ts arbitrary: g r)
  case Nil
  then show ?case by simp
next
  case (Cons t ts)
  show ?case
  proof (cases "is_letter_number_format t")
    case False
    with Cons show ?thesis by simp
  next
    case True
    with Cons.prems obtain coords where c: "address_to_coords t = Inr coords"
      by (auto split: sum.splits)
    show ?thesis
    proof (cases "cell_at (cells_index g (fst coords)) coords")
      case None
      with True c Cons.prems show ?thesis by (auto simp: Let_def cell_at_index)
    next
      case (Some v)
      show ?thesis
      proof (cases v)
        case (CInt i)
        with Some True c Cons.prems have
          "resolve_loop ts (cells_index g (fst coords)) (r @ '' '' @ to_string i) = Inr (g', r')"
          by (simp add: Let_def)
        from Cons.IH [OF this] show ?thesis by (simp add: cell_at_index)
      next
        case (CState x)
        with Some True c Cons.prems show ?thesis by (auto simp: Let_def cell_at_index)
      qed
    qed
  qed
qed

text \<open>
  Scenario B (\<open>A0 = 5\<close>, \<open>A1 = A0 2 *\<close>): the formula of \<open>A1\<close> becomes \<open>5 2 *\<close>
  after a space. With \<open>A1 = A0 B5 +\<close> and \<open>B5\<close> never written, the substitution of
  \<open>A0\<close> is discarded.
\<close>

lemma scenario_B:
  "after_loading (file_of [''5'', ''A0 2 *''])
     (\<lambda>s. formula_after (resolve_references ''A1'' s) ''A1'') = Inr (Inr '' 5 2 *'')"
  "after_loading (file_of [''5'', ''A0 B5 +''])
     (\<lambda>s. formula_after (resolve_references ''A1'' s) ''A1'') = Inr (Inr ''#ERR'')"
  "value_at (parse_input 2 [''A0'', ''A1''] (file_of [''5'', ''A0 2 *'']) clear) (0, 1)
     = Inr (Some (CInt 10))"
  "value_at (parse_input 2 [''A1'', ''A0''] (file_of [''5'', ''A0 2 *'']) clear) (0, 1)
     = Inr (Some (CInt 10))"
  by code_simp+

text \<open>
  C6. The claim: exactly the tokens of one or more uppercase letters followed by one or more
  digits are looked up and replaced by the value of the referenced cell, and an address that
  is absent makes the formula the error sentinel. The code departs from it in three ways,
  whatever the iteration order of the registry.

  \<^item> \<open>is_letter_number_format\<close> accepts lowercase letters, so the token \<open>a0\<close> is looked
    up, at column 32. In a sheet of 33 columns whose last cell of row 0 holds 7, the
    formula \<open>a0 1 +\<close> of \<open>A1\<close> becomes \<open>7 1 +\<close> after a space and \<open>A1\<close> ends as 8.
  \<^item> The token is decoded by \<open>col_to_coord\<close>, which reads \<open>AA\<close> as column 0, while
    \<open>coord_to_col\<close> names column 26 \<open>AA\<close>. In a sheet whose row 0 holds 5 in column 0
    and 9 in column 26, the cell named \<open>AA0\<close>, the formula \<open>AA0 1 +\<close> of \<open>A1\<close> is
    given the value of \<open>A0\<close>: \<open>A1\<close> ends as 6.
  \<^item> The row number of a token is converted by \<open>std::stoi\<close> outside any \<open>try\<close>. For the
    formula \<open>A99999999999 1 +\<close> the exception \<open>std::out_of_range\<close> ends the program.
\<close>

theorem reference_lookup_departs_from_pattern:
  "(\<not> spec_address_pattern ''a0'' \<and> is_letter_number_format ''a0'' \<and>
    address_to_coords ''a0'' = Inr (32, 0) \<and>
    after_loading (file_of [csv_line (replicate 32 ''1'' @ [''7'']), ''a0 1 +''])
      (\<lambda>s. formula_after (resolve_references ''A1'' s) ''A1'') = Inr (Inr '' 7 1 +'') \<and>
    map (\<lambda>keys. value_at (parse_input 2 keys
           (file_of [csv_line (replicate 32 ''1'' @ [''7'']), ''a0 1 +'']) clear) (0, 1))
      [[''a0'', ''A1''], [''A1'', ''a0'']]
      = [Inr (Some (CInt 8)), Inr (Some (CInt 8))]) \<and>
   (spec_address_pattern ''AA0'' \<and> coords_to_address (26, 0) = ''AA0'' \<and>
    address_to_coords ''AA0'' = Inr (0, 0) \<and>
    map (\<lambda>keys. map (value_at (parse_input 2 keys
           (file_of [csv_line (''5'' # replicate 25 ''1'' @ [''9'']), ''AA0 1 +'']) clear))
           [(0, 0), (26, 0), (0, 1)])
      [[''AA0'', ''A1''], [''A1'', ''AA0'']]
      = [[Inr (Some (CInt 5)), Inr (Some (CInt 9)), Inr (Some (CInt 6))],
         [Inr (Some (CInt 5)), Inr (Some (CInt 9)), Inr (Some (CInt 6))]]) \<and>
   (spec_address_pattern ''A99999999999'' \<and>
    address_to_coords ''A99999999999'' = Inl Out_of_range \<and>
    map (\<lambda>keys. value_at (parse_input 2 keys (file_of [''A99999999999 1 +'']) clear) (0, 0))
      [[''A0'', ''A99999999999''], [''A99999999999'', ''A0'']]
      = [Inl (Uncaught Out_of_range), Inl (Uncaught Out_of_range)])"
proof -
  have lower: "\<not> spec_address_pattern ''a0''" "is_letter_number_format ''a0''"
    "address_to_coords ''a0'' = Inr (32, 0)"
    by code_simp+
  have lower_formula:
    "after_loading (file_of [csv_line (replicate 32 ''1'' @ [''7'']), ''a0 1 +''])
      (\<lambda>s. formula_after (resolve_references ''A1'' s) ''A1'') = Inr (Inr '' 7 1 +'')"
    by code_simp
  have lower_run:
    "map (\<lambda>keys. value_at (parse_input 2 keys
           (file_of [csv_line (replicate 32 ''1'' @ [''7'']), ''a0 1 +'']) clear) (0, 1))
      [[''a0'', ''A1''], [''A1'', ''a0'']]
      = [Inr (Some (CInt 8)), Inr (Some (CInt 8))]"
    by code_simp
  have wide: "spec_address_pattern ''AA0''" "coords_to_address (26, 0) = ''AA0''"
    "address_to_coords ''AA0'' = Inr (0, 0)"
    by code_simp+
  have wide_run:
    "map (\<lambda>keys. map (value_at (parse_input 2 keys
           (file_of [csv_line (''5'' # replicate 25 ''1'' @ [''9'']), ''AA0 1 +'']) clear))
           [(0, 0), (26, 0), (0, 1)])
      [[''AA0'', ''A1''], [''A1'', ''AA0'']]
      = [[Inr (Some (CInt 5)), Inr (Some (CInt 9)), Inr (Some (CInt 6))],
         [Inr (Some (CInt 5)), Inr (Some (CInt 9)), Inr (Some (CInt 6))]]"
    by code_simp
  have long: "spec_address_pattern ''A99999999999''"
    "address_to_coords ''A99999999999'' = Inl Out_of_range"
    by code_simp+
  have long_run:
    "map (\<lambda>keys. value_at (parse_input 2 keys (file_of [''A99999999999 1 +'']) clear) (0, 0))
      [[''A0'', ''A99999999999''], [''A99999999999'', ''A0'']]
      = [Inl (Uncaught Out_of_range), Inl (Uncaught Out_of_range)]"
    by code_simp
  from lower lower_formula lower_run wide wide_run long long_run show ?thesis
    by blast
qed

text \<open>
  By the claim \<open>a0\<close> is copied through, which leaves a formula that is no postfix
  expression, and \<open>AA0\<close> is replaced by 9, which gives 10.
\<close>

theorem reference_lookup_departs_from_pattern_witness:
  "value_at (parse_input 2 [''a0'', ''A1'']
      (file_of [csv_line (replicate 32 ''1'' @ [''7'']), ''a0 1 +'']) clear) (0, 1)
     \<noteq> Inr (Some (CState Error)) \<and>
   value_at (parse_input 2 [''AA0'', ''A1'']
      (file_of [csv_line (''5'' # replicate 25 ''1'' @ [''9'']), ''AA0 1 +'']) clear) (0, 1)
     \<noteq> Inr (Some (CInt 10)) \<and>
   value_at (parse_input 2 [''A0'', ''A99999999999'']
      (file_of [''A99999999999 1 +'']) clear) (0, 0)
     \<noteq> Inr (Some (CState Error))"
  using reference_lookup_departs_from_pattern by simp

section \<open>Undefined references\<close>

text \<open>
  A formula that contains a reference to an absent coordinate is resolved to \<open>#ERR\<close>,
  wherever the reference stands among its tokens.
\<close>

lemma resolve_loop_undefined:
  assumes "token \<in> set ts" "is_letter_number_format token" "address_to_coords token = Inr ref"
    "cell_at g ref = None" "resolve_loop ts g r = Inr (g', r')"
  shows "r' = ''#ERR''"
  using assms
proof (induction ts arbitrary: g r)
  case Nil
  then show ?case by simp
next
  case (Cons t ts)
  show ?case
  proof (cases "is_letter_number_format t")
    case False
    with Cons.prems have "token \<in> set ts" "resolve_loop ts g (r @ '' '' @ t) = Inr (g', r')"
      by auto
    with Cons.IH Cons.prems(2-4) show ?thesis by blast
  next
    case True
    with Cons.prems(5) obtain coords where c: "address_to_coords t = Inr coords"
      by (auto split: sum.splits)
    let ?g1 = "cells_index g (fst coords)"
    show ?thesis
    proof (cases "cell_at ?g1 coords")
      case None
      with True c Cons.prems(5) show ?thesis by (simp add: Let_def)
    next
      case (Some v)
      show ?thesis
      proof (cases v)
        case (CState x)
        with Some True c Cons.prems(5) show ?thesis by (simp add: Let_def)
      next
        case (CInt i)
        with Some True c Cons.prems(5) have
          loop: "resolve_loop ts ?g1 (r @ '' '' @ to_string i) = Inr (g', r')"
          by (simp add: Let_def)
        from Some CInt Cons.prems(3,4) c have "t \<noteq> token"
          by (auto simp: cell_at_index)
        with Cons.prems(1) have "token \<in> set ts" by simp
        moreover from Cons.prems(4) have "cell_at ?g1 ref = None"
          by (simp add: cell_at_index)
        ultimately show ?thesis
          using Cons.IH Cons.prems(2,3) loop by blast
      qed
    qed
  qed
qed

lemma postfix_value_ERR: "postfix_value ''#ERR'' = Inr (CState Error)"
  by code_simp

lemma resolve_loop_returns:
  "\<forall>t\<in>set ts. is_letter_number_format t \<longrightarrow> (\<exists>c. address_to_coords t = Inr c) \<Longrightarrow>
   \<exists>g' r'. resolve_loop ts g r = Inr (g', r')"
proof (induction ts arbitrary: g r)
  case Nil
  then show ?case by simp
next
  case (Cons t ts)
  then have rest: "\<forall>t\<in>set ts. is_letter_number_format t \<longrightarrow> (\<exists>c. address_to_coords t = Inr c)"
    by simp
  show ?case
  proof (cases "is_letter_number_format t")
    case False
    with Cons.IH [OF rest] show ?thesis by simp
  next
    case True
    with Cons.prems obtain coords where c: "address_to_coords t = Inr coords"
      by auto
    show ?thesis
    proof (cases "cell_at (cells_index g (fst coords)) coords")
      case None
      with True c show ?thesis by (simp add: Let_def)
    next
      case (Some v)
      with True c Cons.IH [OF rest] show ?thesis
        by (cases v) (simp_all add: Let_def)
    qed
  qed
qed

text \<open>
  The step of \<open>resolve_dependencies\<close> for a cell whose formula contains a reference to a
  coordinate that is absent from the grid: when the row number of each address token and of
  the cell's own address fits an \<open>int\<close>, the step stores \<open>Error\<close> at the coordinate
  that \<open>address_to_coords\<close> gives for the cell's address and changes the contents of no
  other coordinate.
\<close>

lemma resolve_step_undefined_reference:
  assumes "token \<in> set (tokens (fst (dep_entry (dependencies s) cell_address)))"
    and "is_letter_number_format token"
    and "address_to_coords token = Inr ref"
    and "cell_at (cells s) ref = None"
    and "\<forall>t\<in>set (tokens (fst (dep_entry (dependencies s) cell_address))).
           is_letter_number_format t \<longrightarrow> (\<exists>c. address_to_coords t = Inr c)"
    and "address_to_coords cell_address = Inr coords"
  shows "\<exists>s'. resolve_step cell_address s = Inr s' \<and>
           cell_at (cells s') coords = Some (CState Error) \<and>
           (\<forall>p. p \<noteq> coords \<longrightarrow> cell_at (cells s') p = cell_at (cells s) p) \<and>
           (ref \<noteq> coords \<longrightarrow> cell_at (cells s') ref = None)"
proof -
  let ?e = "dep_entry (dependencies s) cell_address"
  from resolve_loop_returns [OF assms(5), of "cells s" "[]"] obtain g r where
    loop: "resolve_loop (tokens (fst ?e)) (cells s) [] = Inr (g, r)"
    by blast
  from resolve_loop_undefined [OF assms(1-4) loop] have r: "r = ''#ERR''" .
  let ?s1 = "s\<lparr>cells := g, dependencies := (dependencies s)(cell_address \<mapsto> (''#ERR'', snd ?e))\<rparr>"
  let ?s' = "?s1\<lparr>cells := cells_assign (cells ?s1) coords (CState Error)\<rparr>"
  from loop r have rr: "resolve_references cell_address s = Inr ?s1"
    by (simp add: resolve_references_def Let_def)
  have f: "fst (dep_entry (dependencies ?s1) cell_address) = ''#ERR''"
    by (simp add: dep_entry_def)
  have "calculate_postfix coords ''#ERR'' ?s1 = Inr ?s'"
    by (simp add: calculate_postfix_def postfix_value_ERR)
  with rr f assms(6) have step: "resolve_step cell_address s = Inr ?s'"
    by (simp add: resolve_step_def Let_def)
  have same: "\<And>p. cell_at g p = cell_at (cells s) p"
    using resolve_loop_cell_at [OF loop] .
  have "cell_at (cells ?s') coords = Some (CState Error)"
    by (simp add: cell_at_assign)
  moreover from same have frame: "\<forall>p. p \<noteq> coords \<longrightarrow> cell_at (cells ?s') p = cell_at (cells s) p"
    by (simp add: cell_at_assign)
  moreover from frame assms(4) have "ref \<noteq> coords \<longrightarrow> cell_at (cells ?s') ref = None"
    by metis
  ultimately show ?thesis
    using step by blast
qed

text \<open>
  Scenario E (\<open>A0 = B5 1 +\<close> and \<open>B5\<close> never written), the whole run, for both
  iteration orders of the registry: \<open>A0\<close> ends as \<open>Error\<close> and \<open>B5\<close> stays absent.
\<close>

lemma scenario_E:
  "value_at (parse_input 2 [''A0'', ''B5''] (file_of [''B5 1 +'']) clear) (0, 0) = Inr (Some (CState Error))"
  "value_at (parse_input 2 [''A0'', ''B5''] (file_of [''B5 1 +'']) clear) (1, 5) = Inr None"
  "value_at (parse_input 2 [''B5'', ''A0''] (file_of [''B5 1 +'']) clear) (0, 0) = Inr (Some (CState Error))"
  "value_at (parse_input 2 [''B5'', ''A0''] (file_of [''B5 1 +'']) clear) (1, 5) = Inr None"
  by code_simp+

text \<open>
  C9. The claim: a formula that references an address never written yields \<open>Error\<close> for
  the referencing cell only, and the referenced cell stays absent. It holds in scenario E,
  and fails on other inputs, whatever the iteration order of the registry.

  \<^item> \<open>resolve_dependencies\<close> stores the result at the coordinate that
    \<open>address_to_coords\<close> gives for the referencing cell's address, and for a cell from
    column 26 on that is another cell. In a sheet of one row with 26 cells \<open>1\<close> and the
    formula \<open>B5 1 +\<close> in column 26, the referencing cell stays absent from the grid and
    the plain cell \<open>A0\<close>, which held 1, ends as \<open>Error\<close>.
  \<^item> When the row number of the referenced address does not fit an \<open>int\<close>, as in
    \<open>A0 = A99999999999 1 +\<close>, \<open>std::stoi\<close> throws \<open>std::out_of_range\<close> from
    \<open>address_to_coords\<close>, nothing catches it, and no cell receives a value.
\<close>

theorem undefined_reference_error_misplaced:
  "(coords_to_address (26, 0) = ''AA0'' \<and> address_to_coords ''AA0'' = Inr (0, 0) \<and>
    after_loading (file_of [csv_line (replicate 26 ''1'' @ [''B5 1 +''])])
      (\<lambda>s. (map (dep_entry (dependencies s)) [''AA0'', ''B5''],
            map (cell_at (cells s)) [(26, 0), (0, 0), (1, 5)]))
      = Inr ([(''B5 1 +'', []), ([], [''AA0''])], [None, Some (CInt 1), None]) \<and>
    map (\<lambda>keys. map (value_at (parse_input 2 keys
           (file_of [csv_line (replicate 26 ''1'' @ [''B5 1 +''])]) clear))
           [(26, 0), (0, 0), (1, 5)])
      [[''AA0'', ''B5''], [''B5'', ''AA0'']]
      = [[Inr None, Inr (Some (CState Error)), Inr None],
         [Inr None, Inr (Some (CState Error)), Inr None]]) \<and>
   (after_loading (file_of [''A99999999999 1 +''])
      (\<lambda>s. map (dep_entry (dependencies s)) [''A0'', ''A99999999999''])
      = Inr [(''A99999999999 1 +'', []), ([], [''A0''])] \<and>
    address_to_coords ''A99999999999'' = Inl Out_of_range \<and>
    map (\<lambda>keys. value_at (parse_input 2 keys (file_of [''A99999999999 1 +'']) clear) (0, 0))
      [[''A0'', ''A99999999999''], [''A99999999999'', ''A0'']]
      = [Inl (Uncaught Out_of_range), Inl (Uncaught Out_of_range)])"
proof -
  have names: "coords_to_address (26, 0) = ''AA0''" "address_to_coords ''AA0'' = Inr (0, 0)"
    by code_simp+
  have wide_loaded:
    "after_loading (file_of [csv_line (replicate 26 ''1'' @ [''B5 1 +''])])
      (\<lambda>s. (map (dep_entry (dependencies s)) [''AA0'', ''B5''],
            map (cell_at (cells s)) [(26, 0), (0, 0), (1, 5)]))
      = Inr ([(''B5 1 +'', []), ([], [''AA0''])], [None, Some (CInt 1), None])"
    by code_simp
  have wide_run:
    "map (\<lambda>keys. map (value_at (parse_input 2 keys
           (file_of [csv_line (replicate 26 ''1'' @ [''B5 1 +''])]) clear))
           [(26, 0), (0, 0), (1, 5)])
      [[''AA0'', ''B5''], [''B5'', ''AA0'']]
      = [[Inr None, Inr (Some (CState Error)), Inr None],
         [Inr None, Inr (Some (CState Error)), Inr None]]"
    by code_simp
  have long_loaded:
    "after_loading (file_of [''A99999999999 1 +''])
      (\<lambda>s. map (dep_entry (dependencies s)) [''A0'', ''A99999999999''])
      = Inr [(''A99999999999 1 +'', []), ([], [''A0''])]"
    by code_simp
  have long: "address_to_coords ''A99999999999'' = Inl Out_of_range"
    by code_simp
  have long_run:
    "map (\<lambda>keys. value_at (parse_input 2 keys (file_of [''A99999999999 1 +'']) clear) (0, 0))
      [[''A0'', ''A99999999999''], [''A99999999999'', ''A0'']]
      = [Inl (Uncaught Out_of_range), Inl (Uncaught Out_of_range)]"
    by code_simp
  from names wide_loaded wide_run long_loaded long long_run show ?thesis
    by blast
qed

text \<open>In neither sheet does the referencing cell hold \<open>Error\<close> at the end.\<close>

theorem undefined_reference_error_misplaced_witness:
  "value_at (parse_input 2 [''AA0'', ''B5'']
      (file_of [csv_line (replicate 26 ''1'' @ [''B5 1 +''])]) clear) (26, 0)
     \<noteq> Inr (Some (CState Error)) \<and>
   value_at (parse_input 2 [''AA0'', ''B5'']
      (file_of [csv_line (replicate 26 ''1'' @ [''B5 1 +''])]) clear) (0, 0)
     \<noteq> Inr (Some (CInt 1)) \<and>
   value_at (parse_input 2 [''A0'', ''A99999999999'']
      (file_of [''A99999999999 1 +'']) clear) (0, 0)
     \<noteq> Inr (Some (CState Error))"
  using undefined_reference_error_misplaced by simp

text \<open>
  The marking of a cycle reaches a referenced cell that was never written, too. In the sheet
  \<open>A0 = B0 1 +\<close>, \<open>B0 = A0 1 +\<close>, \<open>C0 = B5 1 +\<close>, with the registry iterated in the
  order \<open>B5, C0, B0, A0\<close>, the addresses \<open>B5\<close> and \<open>C0\<close> are in \<open>res\<close> when the
  cycle of \<open>A0\<close> and \<open>B0\<close> is found, and \<open>B5\<close> ends as \<open>Error\<close>; in the order
  \<open>A0, B0, C0, B5\<close> it stays absent. In the sheet \<open>A0 = B5 A0 +\<close> it ends as
  \<open>Error\<close> in both orders.
\<close>

lemma undefined_reference_marked_by_cycle:
  "map (value_at (parse_input 4 [''B5'', ''C0'', ''B0'', ''A0'']
          (file_of [''B0 1 +,A0 1 +,B5 1 +'']) clear)) [(0, 0), (1, 0), (2, 0), (1, 5)]
     = [Inr (Some (CState Error)), Inr (Some (CState Error)), Inr (Some (CState Error)),
        Inr (Some (CState Error))]"
  "map (value_at (parse_input 4 [''A0'', ''B0'', ''C0'', ''B5'']
          (file_of [''B0 1 +,A0 1 +,B5 1 +'']) clear)) [(0, 0), (1, 0), (2, 0), (1, 5)]
     = [Inr (Some (CState Error)), Inr (Some (CState Error)), Inr (Some (CState Error)),
        Inr None]"
  "map (value_at (parse_input 2 [''A0'', ''B5''] (file_of [''B5 A0 +'']) clear)) [(0, 0), (1, 5)]
     = [Inr (Some (CState Error)), Inr (Some (CState Error))]"
  "map (value_at (parse_input 2 [''B5'', ''A0''] (file_of [''B5 A0 +'']) clear)) [(0, 0), (1, 5)]
     = [Inr (Some (CState Error)), Inr (Some (CState Error))]"
  by code_simp+

section \<open>The keys of the registry after loading\<close>

lemma dom_register_tokens:
  "dom (register_tokens a ts d) = dom d \<union> {t \<in> set ts. is_letter_number_format t}"
  by (induction ts arbitrary: d) auto

lemma dom_parse_tokens:
  assumes "parse_tokens coords text s = Inr s'"
  shows "dom (dependencies s') = dom (dependencies s) \<union> set (cell_keys coords text)"
proof (cases "contains_letter text")
  case True
  let ?a = "coords_to_address coords"
  let ?d1 = "case dependencies s ?a of
               Some e \<Rightarrow> (dependencies s)(?a \<mapsto> (text, snd e))
             | None \<Rightarrow> (dependencies s)(?a \<mapsto> (text, []))"
  from True assms have "dependencies s' = register_tokens ?a (tokens text) ?d1"
    by (auto simp: parse_tokens_def Let_def)
  moreover have "dom ?d1 = dom (dependencies s) \<union> {?a}"
    by (auto split: option.splits)
  ultimately show ?thesis
    using True by (auto simp: cell_keys_def dom_register_tokens)
next
  case False
  with assms have "dependencies s' = dependencies s"
    by (auto simp: parse_tokens_def calculate_postfix_def split: sum.splits)
  with False show ?thesis
    by (simp add: cell_keys_def)
qed

lemma dom_parse_cells:
  "parse_cells row col cs s = Inr (col', s') \<Longrightarrow>
   dom (dependencies s') = dom (dependencies s) \<union> set (row_keys row col cs)"
proof (induction cs arbitrary: col s)
  case Nil
  then show ?case by simp
next
  case (Cons c cs)
  from Cons.prems obtain s1 where pt: "parse_tokens (col, row) c s = Inr s1"
    and rest: "parse_cells row (col + 1) cs s1 = Inr (col', s')"
    by (auto split: sum.splits)
  from Cons.IH [OF rest] dom_parse_tokens [OF pt] show ?case
    by auto
qed

lemma dom_parse_lines:
  "parse_lines row ls s = Inr (row', s') \<Longrightarrow>
   dom (dependencies s') = dom (dependencies s) \<union> set (file_keys row ls)"
proof (induction ls arbitrary: row s)
  case Nil
  then show ?case by simp
next
  case (Cons l ls)
  from Cons.prems obtain col s1 where
    pc: "parse_cells row 0 (getlines CHR '','' l) s = Inr (col, s1)"
    and rest: "parse_lines (row + 1) ls (s1\<lparr>max_col := int_max (max_col s1) (col - 1)\<rparr>)
                 = Inr (row', s')"
    by (auto split: sum.splits)
  from Cons.IH [OF rest] dom_parse_cells [OF pc] show ?case
    by auto
qed

lemma dom_loaded:
  assumes "loaded contents = Inr s"
  shows "dom (dependencies s) = set (file_keys 0 (getlines CHR 0x0A contents))"
proof -
  from assms obtain row where "parse_lines 0 (getlines CHR 0x0A contents) clear = Inr (row, s)"
    by (auto simp: loaded_def split: sum.splits)
  from dom_parse_lines [OF this] show ?thesis
    by (simp add: clear_def)
qed

text \<open>The keys of the registry after loading, when the keys of the file are known.\<close>

lemma dom_after_loading:
  assumes "after_loading contents f = Inr v"
    and "set (file_keys 0 (getlines CHR 0x0A contents)) = K"
  shows "after_loading contents (\<lambda>s. dom (dependencies s)) = Inr K"
proof -
  from assms(1) obtain s where "loaded contents = Inr s"
    by (auto simp: after_loading_Inr)
  with dom_loaded [OF this] assms(2) show ?thesis
    by (simp add: after_loading_def)
qed

section \<open>Cycles: runs of the whole program\<close>

text \<open>
  C3. The claim: a cell not implicated in any cycle resolves to its normal value, for
  every iteration order of the registry. In the sheet
  \<open>A0 = 5\<close>, \<open>B0 = B1 1 +\<close>, \<open>A1 = A0 2 *\<close>, \<open>B1 = B0 1 +\<close>
  the cells \<open>B0\<close> and \<open>B1\<close> form a cycle, and \<open>A0\<close>, \<open>A1\<close> neither
  reference them nor are referenced by them. When the registry yields \<open>A0\<close> before
  the cycle, the traversal of the cycle finds it with \<open>A0\<close> and \<open>A1\<close> already in
  \<open>res\<close>, and all of \<open>res\<close> is set to \<open>Error\<close>: \<open>A0\<close> and \<open>A1\<close> end as
  \<open>Error\<close>. In the order that yields \<open>B0\<close> first they end as 5 and 10.
\<close>

theorem cycle_marks_unrelated_cells:
  "after_loading (file_of [''5,B1 1 +'', ''A0 2 *,B0 1 +'']) (\<lambda>s. dom (dependencies s))
     = Inr {''A0'', ''A1'', ''B0'', ''B1''} \<and>
   after_loading (file_of [''5,B1 1 +'', ''A0 2 *,B0 1 +''])
     (\<lambda>s. map (\<lambda>k. snd (dep_entry (dependencies s) k)) [''A0'', ''A1'', ''B0'', ''B1''])
     = Inr [[''A1''], [], [''B1''], [''B0'']] \<and>
   map (value_at (parse_input 4 [''A0'', ''A1'', ''B0'', ''B1'']
          (file_of [''5,B1 1 +'', ''A0 2 *,B0 1 +'']) clear)) [(0, 0), (0, 1)]
     = [Inr (Some (CState Error)), Inr (Some (CState Error))] \<and>
   map (value_at (parse_input 4 [''A0'', ''A1'', ''B1'', ''B0'']
          (file_of [''5,B1 1 +'', ''A0 2 *,B0 1 +'']) clear)) [(0, 0), (0, 1)]
     = [Inr (Some (CState Error)), Inr (Some (CState Error))] \<and>
   map (value_at (parse_input 4 [''B0'', ''B1'', ''A0'', ''A1'']
          (file_of [''5,B1 1 +'', ''A0 2 *,B0 1 +'']) clear)) [(0, 0), (0, 1)]
     = [Inr (Some (CInt 5)), Inr (Some (CInt 10))]"
proof -
  have "file_keys 0 (getlines CHR 0x0A (file_of [''5,B1 1 +'', ''A0 2 *,B0 1 +'']))
      = [''B0'', ''B1'', ''A1'', ''A0'', ''B1'', ''B0'']"
    by code_simp
  then have keys: "set (file_keys 0 (getlines CHR 0x0A (file_of [''5,B1 1 +'', ''A0 2 *,B0 1 +''])))
      = {''A0'', ''A1'', ''B0'', ''B1''}"
    by auto
  have deps: "after_loading (file_of [''5,B1 1 +'', ''A0 2 *,B0 1 +''])
     (\<lambda>s. map (\<lambda>k. snd (dep_entry (dependencies s) k)) [''A0'', ''A1'', ''B0'', ''B1''])
     = Inr [[''A1''], [], [''B1''], [''B0'']]"
    by code_simp
  note dom_after_loading [OF deps keys] deps
  moreover have
    "map (value_at (parse_input 4 [''A0'', ''A1'', ''B0'', ''B1'']
            (file_of [''5,B1 1 +'', ''A0 2 *,B0 1 +'']) clear)) [(0, 0), (0, 1)]
       = [Inr (Some (CState Error)), Inr (Some (CState Error))]"
    by code_simp
  moreover have
    "map (value_at (parse_input 4 [''A0'', ''A1'', ''B1'', ''B0'']
            (file_of [''5,B1 1 +'', ''A0 2 *,B0 1 +'']) clear)) [(0, 0), (0, 1)]
       = [Inr (Some (CState Error)), Inr (Some (CState Error))]"
    by code_simp
  moreover have
    "map (value_at (parse_input 4 [''B0'', ''B1'', ''A0'', ''A1'']
          (file_of [''5,B1 1 +'', ''A0 2 *,B0 1 +'']) clear)) [(0, 0), (0, 1)]
     = [Inr (Some (CInt 5)), Inr (Some (CInt 10))]"
    by code_simp
  ultimately show ?thesis by blast
qed

theorem cycle_marks_unrelated_cells_witness:
  "value_at (parse_input 4 [''A0'', ''A1'', ''B0'', ''B1'']
      (file_of [''5,B1 1 +'', ''A0 2 *,B0 1 +'']) clear) (0, 0) \<noteq> Inr (Some (CInt 5)) \<and>
   value_at (parse_input 4 [''A0'', ''A1'', ''B0'', ''B1'']
      (file_of [''5,B1 1 +'', ''A0 2 *,B0 1 +'']) clear) (0, 1) \<noteq> Inr (Some (CInt 10))"
  using cycle_marks_unrelated_cells by simp

text \<open>
  C5. The claim: every cell on a reference cycle ends as \<open>Error\<close>, whatever the order.
  \<open>coord_to_col\<close> names the columns 26 and 27 \<open>AA\<close> and \<open>AB\<close>, and \<open>col_to_coord\<close>
  maps \<open>AA\<close> and \<open>AB\<close> back to the columns 0 and 1. In a sheet of one row with 28 cells,
  where the cells of columns 26 and 27 hold \<open>AB0 1 +\<close> and \<open>AA0 1 +\<close>, these two cells
  form a cycle. The marking and the evaluation of the keys \<open>AA0\<close> and \<open>AB0\<close> write to
  the coordinates of \<open>A0\<close> and \<open>B0\<close>: in both iteration orders the two cells of the
  cycle end absent from the grid, and the plain cells \<open>A0\<close> and \<open>B0\<close> end as \<open>Error\<close>.
\<close>

theorem cycle_cells_written_elsewhere:
  "map coords_to_address [(26, 0), (27, 0)] = [''AA0'', ''AB0''] \<and>
   map address_to_coords [''AA0'', ''AB0''] = [Inr (0, 0), Inr (1, 0)] \<and>
   after_loading (file_of [csv_line (replicate 26 ''1'' @ [''AB0 1 +'', ''AA0 1 +''])])
     (\<lambda>s. dom (dependencies s)) = Inr {''AA0'', ''AB0''} \<and>
   after_loading (file_of [csv_line (replicate 26 ''1'' @ [''AB0 1 +'', ''AA0 1 +''])])
     (\<lambda>s. map (dep_entry (dependencies s)) [''AA0'', ''AB0''])
     = Inr [(''AB0 1 +'', [''AB0'']), (''AA0 1 +'', [''AA0''])] \<and>
   map (value_at (parse_input 2 [''AA0'', ''AB0'']
          (file_of [csv_line (replicate 26 ''1'' @ [''AB0 1 +'', ''AA0 1 +''])]) clear))
     [(26, 0), (27, 0), (0, 0), (1, 0)]
     = [Inr None, Inr None, Inr (Some (CState Error)), Inr (Some (CState Error))] \<and>
   map (value_at (parse_input 2 [''AB0'', ''AA0'']
          (file_of [csv_line (replicate 26 ''1'' @ [''AB0 1 +'', ''AA0 1 +''])]) clear))
     [(26, 0), (27, 0), (0, 0), (1, 0)]
     = [Inr None, Inr None, Inr (Some (CState Error)), Inr (Some (CState Error))]"
proof -
  have "file_keys 0 (getlines CHR 0x0A
          (file_of [csv_line (replicate 26 ''1'' @ [''AB0 1 +'', ''AA0 1 +''])]))
      = [''AA0'', ''AB0'', ''AB0'', ''AA0'']"
    by code_simp
  then have keys: "set (file_keys 0 (getlines CHR 0x0A
          (file_of [csv_line (replicate 26 ''1'' @ [''AB0 1 +'', ''AA0 1 +''])])))
     = {''AA0'', ''AB0''}"
    by auto
  have deps: "after_loading (file_of [csv_line (replicate 26 ''1'' @ [''AB0 1 +'', ''AA0 1 +''])])
     (\<lambda>s. map (dep_entry (dependencies s)) [''AA0'', ''AB0''])
     = Inr [(''AB0 1 +'', [''AB0'']), (''AA0 1 +'', [''AA0''])]"
    by code_simp
  note dom_after_loading [OF deps keys] deps
  moreover have "map coords_to_address [(26, 0), (27, 0)] = [''AA0'', ''AB0'']"
    "map address_to_coords [''AA0'', ''AB0''] = [Inr (0, 0), Inr (1, 0)]"
    by code_simp+
  moreover have
    "map (value_at (parse_input 2 [''AA0'', ''AB0'']
            (file_of [csv_line (replicate 26 ''1'' @ [''AB0 1 +'', ''AA0 1 +''])]) clear))
       [(26, 0), (27, 0), (0, 0), (1, 0)]
       = [Inr None, Inr None, Inr (Some (CState Error)), Inr (Some (CState Error))]"
    by code_simp
  moreover have
    "map (value_at (parse_input 2 [''AB0'', ''AA0'']
            (file_of [csv_line (replicate 26 ''1'' @ [''AB0 1 +'', ''AA0 1 +''])]) clear))
       [(26, 0), (27, 0), (0, 0), (1, 0)]
       = [Inr None, Inr None, Inr (Some (CState Error)), Inr (Some (CState Error))]"
    by code_simp
  ultimately show ?thesis by blast
qed

theorem cycle_cells_written_elsewhere_witness:
  "value_at (parse_input 2 [''AA0'', ''AB0'']
      (file_of [csv_line (replicate 26 ''1'' @ [''AB0 1 +'', ''AA0 1 +''])]) clear) (26, 0)
     \<noteq> Inr (Some (CState Error)) \<and>
   value_at (parse_input 2 [''AB0'', ''AA0'']
      (file_of [csv_line (replicate 26 ''1'' @ [''AB0 1 +'', ''AA0 1 +''])]) clear) (26, 0)
     \<noteq> Inr (Some (CState Error))"
  using cycle_cells_written_elsewhere by simp

text \<open>
  In the same way a cell on a cycle can end as an integer. With \<open>A0 = A1 1 +\<close> and
  \<open>A1 = A0 1 +\<close> on a cycle, \<open>B0 = 1\<close>, and \<open>B0 1 +\<close> in column 26 of row 0, the value
  2 of that cell is written to the coordinate of \<open>A0\<close>: when the registry yields its keys
  in the order \<open>AA0, A0, A1, B0\<close>, the cell \<open>A0\<close> ends as 2.
\<close>

lemma cycle_cell_overwritten_by_integer:
  "coords_to_address (26, 0) = ''AA0'' \<and> address_to_coords ''AA0'' = Inr (0, 0) \<and>
   after_loading (file_of [csv_line (''A1 1 +'' # replicate 25 ''1'' @ [''B0 1 +'']), ''A0 1 +''])
     (\<lambda>s. dom (dependencies s)) = Inr {''AA0'', ''A0'', ''A1'', ''B0''} \<and>
   after_loading (file_of [csv_line (''A1 1 +'' # replicate 25 ''1'' @ [''B0 1 +'']), ''A0 1 +''])
     (\<lambda>s. map (\<lambda>k. snd (dep_entry (dependencies s) k)) [''A0'', ''A1''])
     = Inr [[''A1''], [''A0'']] \<and>
   map (value_at (parse_input 4 [''AA0'', ''A0'', ''A1'', ''B0'']
          (file_of [csv_line (''A1 1 +'' # replicate 25 ''1'' @ [''B0 1 +'']), ''A0 1 +'']) clear))
     [(0, 0), (0, 1), (26, 0)] = [Inr (Some (CInt 2)), Inr (Some (CState Error)), Inr None]"
proof -
  have "file_keys 0 (getlines CHR 0x0A
          (file_of [csv_line (''A1 1 +'' # replicate 25 ''1'' @ [''B0 1 +'']), ''A0 1 +'']))
      = [''A0'', ''A1'', ''AA0'', ''B0'', ''A1'', ''A0'']"
    by code_simp
  then have keys: "set (file_keys 0 (getlines CHR 0x0A
          (file_of [csv_line (''A1 1 +'' # replicate 25 ''1'' @ [''B0 1 +'']), ''A0 1 +''])))
     = {''AA0'', ''A0'', ''A1'', ''B0''}"
    by auto
  have deps: "after_loading (file_of [csv_line (''A1 1 +'' # replicate 25 ''1'' @ [''B0 1 +'']), ''A0 1 +''])
     (\<lambda>s. map (\<lambda>k. snd (dep_entry (dependencies s) k)) [''A0'', ''A1''])
     = Inr [[''A1''], [''A0'']]"
    by code_simp
  note dom_after_loading [OF deps keys] deps
  moreover have "coords_to_address (26, 0) = ''AA0''" "address_to_coords ''AA0'' = Inr (0, 0)"
    by code_simp+
  moreover have
    "map (value_at (parse_input 4 [''AA0'', ''A0'', ''A1'', ''B0'']
          (file_of [csv_line (''A1 1 +'' # replicate 25 ''1'' @ [''B0 1 +'']), ''A0 1 +'']) clear))
     [(0, 0), (0, 1), (26, 0)] = [Inr (Some (CInt 2)), Inr (Some (CState Error)), Inr None]"
    by code_simp
  ultimately show ?thesis by blast
qed

text \<open>Scenario C alone (\<open>A0 = A1 1 +\<close>, \<open>A1 = A0 1 +\<close>): both cells end as \<open>Error\<close>
  in both iteration orders.\<close>

lemma scenario_C:
  "map (value_at (parse_input 2 [''A0'', ''A1''] (file_of [''A1 1 +'', ''A0 1 +'']) clear))
     [(0, 0), (0, 1)] = [Inr (Some (CState Error)), Inr (Some (CState Error))]"
  "map (value_at (parse_input 2 [''A1'', ''A0''] (file_of [''A1 1 +'', ''A0 1 +'']) clear))
     [(0, 0), (0, 1)] = [Inr (Some (CState Error)), Inr (Some (CState Error))]"
  by code_simp+

section \<open>The registry after loading is closed\<close>

lemma closed_dependents: "closed_registry d \<Longrightarrow> set (snd (dep_entry d k)) \<subseteq> dom d"
proof (cases "d k")
  case None
  then show ?thesis by (simp add: dep_entry_def)
next
  case (Some e)
  assume "closed_registry d"
  moreover from Some have "k \<in> dom d" by auto
  ultimately show ?thesis unfolding closed_registry_def by blast
qed

lemma closed_register_tokens:
  "closed_registry d \<Longrightarrow> a \<in> dom d \<Longrightarrow> closed_registry (register_tokens a ts d)"
proof (induction ts arbitrary: d)
  case Nil
  then show ?case by simp
next
  case (Cons t ts)
  show ?case
  proof (cases "is_letter_number_format t")
    case False
    with Cons show ?thesis by simp
  next
    case True
    let ?d = "d(t \<mapsto> (fst (dep_entry d t), snd (dep_entry d t) @ [a]))"
    have old: "set (snd (dep_entry d t)) \<subseteq> dom d"
      using Cons.prems(1) by (rule closed_dependents)
    have "closed_registry ?d"
      unfolding closed_registry_def
    proof
      fix k assume k: "k \<in> dom ?d"
      show "set (snd (dep_entry ?d k)) \<subseteq> dom ?d"
      proof (cases "k = t")
        case True
        with old Cons.prems(2) show ?thesis by (auto simp: dep_entry_def)
      next
        case False
        from Cons.prems(1) have "set (snd (dep_entry d k)) \<subseteq> dom d"
          by (rule closed_dependents)
        with False show ?thesis by (auto simp: dep_entry_def)
      qed
    qed
    moreover from Cons.prems(2) have "a \<in> dom ?d" by simp
    ultimately have "closed_registry (register_tokens a ts ?d)"
      by (rule Cons.IH)
    with True show ?thesis by simp
  qed
qed

lemma closed_set_formula:
  assumes "closed_registry d"
  shows "closed_registry (d(a \<mapsto> (f, snd (dep_entry d a))))"
  unfolding closed_registry_def
proof
  fix k assume "k \<in> dom (d(a \<mapsto> (f, snd (dep_entry d a))))"
  then have "k = a \<or> k \<in> dom d" by auto
  moreover have "set (snd (dep_entry d k)) \<subseteq> dom d"
    using assms by (rule closed_dependents)
  ultimately show "set (snd (dep_entry (d(a \<mapsto> (f, snd (dep_entry d a)))) k))
      \<subseteq> dom (d(a \<mapsto> (f, snd (dep_entry d a))))"
    by (auto simp: dep_entry_def)
qed

lemma closed_parse_tokens:
  assumes "closed_registry (dependencies s)" and pt: "parse_tokens coords text s = Inr s'"
  shows "closed_registry (dependencies s')"
proof (cases "contains_letter text")
  case False
  with pt have "dependencies s' = dependencies s"
    by (auto simp: parse_tokens_def calculate_postfix_def split: sum.splits)
  with assms(1) show ?thesis by simp
next
  case True
  let ?a = "coords_to_address coords"
  let ?d = "dependencies s"
  let ?d1 = "?d(?a \<mapsto> (text, snd (dep_entry ?d ?a)))"
  have d1: "(case ?d ?a of Some e \<Rightarrow> ?d(?a \<mapsto> (text, snd e)) | None \<Rightarrow> ?d(?a \<mapsto> (text, []))) = ?d1"
    by (simp add: dep_entry_def split: option.splits)
  have "closed_registry ?d1"
    using assms(1) by (rule closed_set_formula)
  then have "closed_registry (register_tokens ?a (tokens text) ?d1)"
    by (rule closed_register_tokens) simp
  moreover from True d1 pt have "dependencies s' = register_tokens ?a (tokens text) ?d1"
    by (auto simp: parse_tokens_def Let_def)
  ultimately show ?thesis by simp
qed

lemma closed_loaded:
  assumes "loaded contents = Inr s"
  shows "closed_registry (dependencies s)"
proof (rule loaded_preserves [where P = "\<lambda>s. closed_registry (dependencies s)", OF _ _ _ assms])
  show "closed_registry (dependencies clear)"
    by (simp add: closed_registry_def clear_def)
qed (simp_all add: closed_parse_tokens)

section \<open>The traversal of an acyclic graph\<close>

lemma respects_edges_nth:
  "respects_edges d r \<Longrightarrow> i < length r \<Longrightarrow> w \<in> set (snd (dep_entry d (r ! i))) \<Longrightarrow>
   \<exists>j. i < j \<and> j < length r \<and> r ! j = w"
proof (induction r arbitrary: i)
  case Nil
  then show ?case by simp
next
  case (Cons x xs)
  show ?case
  proof (cases i)
    case 0
    with Cons.prems have "w \<in> set xs" by auto
    then obtain j where "j < length xs" "xs ! j = w"
      by (auto simp: in_set_conv_nth)
    with 0 show ?thesis by (intro exI [of _ "Suc j"]) simp
  next
    case (Suc i')
    with Cons.prems have "respects_edges d xs" "i' < length xs"
      "w \<in> set (snd (dep_entry d (xs ! i')))"
      by auto
    from Cons.IH [OF this] obtain j where "i' < j" "j < length xs" "xs ! j = w"
      by blast
    with Suc show ?thesis by (intro exI [of _ "Suc j"]) simp
  qed
qed

text \<open>The loop over the dependents of \<open>x\<close>, given the property of the recursive calls.\<close>

lemma dfs_loop_acyclic:
  assumes acyc: "acyclic (dep_edges d)" and closed: "closed_registry d" and fin: "finite (dom d)"
    and call: "\<And>w st. \<lbrakk>w \<in> dom d; w \<notin> marked st; marked st \<subseteq> dom d; dfs_inv d st;
                 \<forall>r\<in>recStack st. (r, w) \<in> (dep_edges d)\<^sup>*; card (dom d - marked st) \<le> m\<rbrakk>
             \<Longrightarrow> \<exists>st'. call w st = Some (False, st') \<and> dfs_inv d st' \<and>
                   recStack st' = recStack st \<and> marked st \<subseteq> marked st' \<and>
                   marked st' \<subseteq> dom d \<and> set (res st) \<subseteq> set (res st') \<and> w \<in> marked st'"
    and x: "x \<in> dom d"
  shows "\<lbrakk>x \<in> recStack st; set ws \<subseteq> set (snd (dep_entry d x)); marked st \<subseteq> dom d;
          dfs_inv d st; \<forall>r\<in>recStack st. (r, x) \<in> (dep_edges d)\<^sup>*;
          card (dom d - marked st) \<le> m;
          set (snd (dep_entry d x)) \<subseteq> set (res st) \<union> set ws\<rbrakk>
         \<Longrightarrow> \<exists>st'. dfs_loop call x ws False st = Some (False, st') \<and> dfs_inv d st' \<and>
               recStack st' = recStack st - {x} \<and> marked st \<subseteq> marked st' \<and>
               marked st' \<subseteq> dom d \<and> set (res st) \<subseteq> set (res st') \<and> x \<in> set (res st')"
proof (induction ws arbitrary: st)
  case Nil
  let ?st' = "st\<lparr>recStack := recStack st - {x}, res := x # res st\<rparr>"
  from Nil.prems have inv: "recStack st \<subseteq> marked st" "set (res st) = marked st - recStack st"
    "distinct (res st)" "respects_edges d (res st)"
    by (simp_all add: dfs_inv_def)
  from Nil.prems(1) inv have "x \<notin> set (res st)" "x \<in> marked st"
    by auto
  with inv Nil.prems(1,7) have "dfs_inv d ?st'"
    by (auto simp: dfs_inv_def)
  with Nil.prems(3) show ?case by auto
next
  case (Cons w ws)
  from Cons.prems have inv: "recStack st \<subseteq> marked st" "set (res st) = marked st - recStack st"
    by (simp_all add: dfs_inv_def)
  from Cons.prems(2) have edge: "(x, w) \<in> dep_edges d"
    by (simp add: dep_edges_def)
  from Cons.prems(2) x closed have w: "w \<in> dom d"
    by (auto simp: closed_registry_def)
  have notrec: "w \<notin> recStack st"
  proof
    assume "w \<in> recStack st"
    with Cons.prems(5) have "(w, x) \<in> (dep_edges d)\<^sup>*" by blast
    from this edge have "(w, w) \<in> (dep_edges d)\<^sup>+" by (rule rtrancl_into_trancl1)
    with acyc show False by (simp add: acyclic_def)
  qed
  have sub: "set ws \<subseteq> set (snd (dep_entry d x))"
    using Cons.prems(2) by simp
  show ?case
  proof (cases "w \<in> marked st")
    case True
    with notrec inv have "w \<in> set (res st)" by simp
    with Cons.prems(7) have "set (snd (dep_entry d x)) \<subseteq> set (res st) \<union> set ws"
      by auto
    from Cons.IH [OF Cons.prems(1) sub Cons.prems(3,4,5,6) this] True notrec
    show ?thesis by simp
  next
    case False
    have path: "\<forall>r\<in>recStack st. (r, w) \<in> (dep_edges d)\<^sup>*"
    proof
      fix r assume "r \<in> recStack st"
      with Cons.prems(5) have "(r, x) \<in> (dep_edges d)\<^sup>*" by blast
      from this edge show "(r, w) \<in> (dep_edges d)\<^sup>*" by (rule rtrancl_into_rtrancl)
    qed
    from call [OF w False Cons.prems(3,4) path Cons.prems(6)] obtain st1 where
      c: "call w st = Some (False, st1)" and inv1: "dfs_inv d st1"
      and rec1: "recStack st1 = recStack st" and m1: "marked st \<subseteq> marked st1"
      and u1: "marked st1 \<subseteq> dom d" and r1: "set (res st) \<subseteq> set (res st1)"
      and w1: "w \<in> marked st1"
      by blast
    from inv1 w1 notrec rec1 have "w \<in> set (res st1)"
      by (simp add: dfs_inv_def)
    with Cons.prems(7) r1 have done1: "set (snd (dep_entry d x)) \<subseteq> set (res st1) \<union> set ws"
      by auto
    have "dom d - marked st1 \<subseteq> dom d - marked st"
      using m1 by auto
    with fin have "card (dom d - marked st1) \<le> card (dom d - marked st)"
      by (intro card_mono) auto
    with Cons.prems(6) have card1: "card (dom d - marked st1) \<le> m" by simp
    from Cons.prems(1,5) rec1 have x1: "x \<in> recStack st1"
      and path1: "\<forall>r\<in>recStack st1. (r, x) \<in> (dep_edges d)\<^sup>*"
      by simp_all
    from Cons.IH [OF x1 sub u1 inv1 path1 card1 done1] obtain st' where
      "dfs_loop call x ws False st1 = Some (False, st')" "dfs_inv d st'"
      "recStack st' = recStack st1 - {x}" "marked st1 \<subseteq> marked st'"
      "marked st' \<subseteq> dom d" "set (res st1) \<subseteq> set (res st')" "x \<in> set (res st')"
      by blast
    with c False notrec rec1 m1 r1 show ?thesis
      by auto
  qed
qed

text \<open>
  A call of \<open>topological_dfs_helper\<close> on an unmarked key of an acyclic graph returns when
  the depth bound is at least the number of unmarked keys. It reports no cycle and puts
  the key and everything reached in front of \<open>res\<close>.
\<close>

lemma dfs_helper_acyclic:
  assumes acyc: "acyclic (dep_edges d)" and closed: "closed_registry d" and fin: "finite (dom d)"
  shows "\<lbrakk>w \<in> dom d; w \<notin> marked st; marked st \<subseteq> dom d; dfs_inv d st;
          \<forall>r\<in>recStack st. (r, w) \<in> (dep_edges d)\<^sup>*; card (dom d - marked st) \<le> n\<rbrakk>
         \<Longrightarrow> \<exists>st'. topological_dfs_helper n d w st = Some (False, st') \<and> dfs_inv d st' \<and>
               recStack st' = recStack st \<and> marked st \<subseteq> marked st' \<and>
               marked st' \<subseteq> dom d \<and> set (res st) \<subseteq> set (res st') \<and> w \<in> marked st'"
proof (induction n arbitrary: w st)
  case 0
  from 0(1,2) have "w \<in> dom d - marked st" by simp
  moreover from fin 0(6) have "dom d - marked st = {}" by simp
  ultimately show ?case by simp
next
  case (Suc m)
  let ?st1 = "st\<lparr>marked := insert w (marked st), recStack := insert w (recStack st)\<rparr>"
  from Suc.prems(4) have inv: "recStack st \<subseteq> marked st" "set (res st) = marked st - recStack st"
    "distinct (res st)" "respects_edges d (res st)"
    by (simp_all add: dfs_inv_def)
  from inv Suc.prems(2) have wrec: "w \<notin> recStack st" by auto
  have inv1: "dfs_inv d ?st1"
    using inv Suc.prems(2) by (auto simp: dfs_inv_def)
  have path1: "\<forall>r\<in>recStack ?st1. (r, w) \<in> (dep_edges d)\<^sup>*"
    using Suc.prems(5) by simp
  have "dom d - marked ?st1 = (dom d - marked st) - {w}" by auto
  moreover have "w \<in> dom d - marked st" using Suc.prems(1,2) by simp
  moreover have "finite (dom d - marked st)" using fin by simp
  ultimately have "card (dom d - marked ?st1) = card (dom d - marked st) - 1"
    by (simp add: card_Diff_singleton)
  with Suc.prems(6) have card1: "card (dom d - marked ?st1) \<le> m" by simp
  have u1: "marked ?st1 \<subseteq> dom d" using Suc.prems(1,3) by simp
  have "\<exists>st'. dfs_loop (topological_dfs_helper m d) w (snd (dep_entry d w)) False ?st1
            = Some (False, st') \<and> dfs_inv d st' \<and> recStack st' = recStack ?st1 - {w} \<and>
          marked ?st1 \<subseteq> marked st' \<and> marked st' \<subseteq> dom d \<and>
          set (res ?st1) \<subseteq> set (res st') \<and> w \<in> set (res st')"
  proof (rule dfs_loop_acyclic [OF acyc closed fin _ Suc.prems(1)])
    fix w' st'
    assume "w' \<in> dom d" "w' \<notin> marked st'" "marked st' \<subseteq> dom d" "dfs_inv d st'"
      "\<forall>r\<in>recStack st'. (r, w') \<in> (dep_edges d)\<^sup>*" "card (dom d - marked st') \<le> m"
    then show "\<exists>st''. topological_dfs_helper m d w' st' = Some (False, st'') \<and> dfs_inv d st'' \<and>
        recStack st'' = recStack st' \<and> marked st' \<subseteq> marked st'' \<and>
        marked st'' \<subseteq> dom d \<and> set (res st') \<subseteq> set (res st'') \<and> w' \<in> marked st''"
      by (rule Suc.IH)
  qed (use inv1 path1 card1 u1 in simp_all)
  then obtain st' where
    "dfs_loop (topological_dfs_helper m d) w (snd (dep_entry d w)) False ?st1 = Some (False, st')"
    "dfs_inv d st'" "recStack st' = recStack ?st1 - {w}" "marked ?st1 \<subseteq> marked st'"
    "marked st' \<subseteq> dom d" "set (res ?st1) \<subseteq> set (res st')"
    by blast
  with wrec show ?case by auto
qed

text \<open>The loop over the keys: no traversal reports a cycle, and the grid is not touched.\<close>

lemma sort_loop_acyclic:
  assumes acyc: "acyclic (dep_edges d)" and closed: "closed_registry d" and fin: "finite (dom d)"
    and fuel: "card (dom d) \<le> fuel"
  shows "\<lbrakk>set ks \<subseteq> dom d; marked st \<subseteq> dom d; dfs_inv d st; recStack st = {}\<rbrakk>
         \<Longrightarrow> \<exists>r. sort_loop fuel d ks st g = Inr (r, g) \<and> distinct r \<and> respects_edges d r \<and>
               set ks \<union> marked st \<subseteq> set r \<and> set r \<subseteq> dom d"
proof (induction ks arbitrary: st)
  case Nil
  then show ?case by (auto simp: dfs_inv_def)
next
  case (Cons k ks)
  show ?case
  proof (cases "k \<in> marked st")
    case True
    from Cons.prems(1) have "set ks \<subseteq> dom d" by simp
    from Cons.IH [OF this Cons.prems(2,3,4)] True show ?thesis by auto
  next
    case False
    have "card (dom d - marked st) \<le> card (dom d)"
      using fin by (intro card_mono) auto
    with fuel have c: "card (dom d - marked st) \<le> fuel" by simp
    from Cons.prems(1) have k: "k \<in> dom d" by simp
    from Cons.prems(4) have path: "\<forall>r\<in>recStack st. (r, k) \<in> (dep_edges d)\<^sup>*" by simp
    from dfs_helper_acyclic [OF acyc closed fin k False Cons.prems(2,3) path c] obtain st' where
      h: "topological_dfs_helper fuel d k st = Some (False, st')" and inv': "dfs_inv d st'"
      and rec': "recStack st' = recStack st" and m': "marked st \<subseteq> marked st'"
      and u': "marked st' \<subseteq> dom d" and k': "k \<in> marked st'"
      by blast
    from Cons.prems(1) have "set ks \<subseteq> dom d" by simp
    from Cons.IH [OF this u' inv'] rec' Cons.prems(4) obtain r where
      "sort_loop fuel d ks st' g = Inr (r, g)" "distinct r" "respects_edges d r"
      "set ks \<union> marked st' \<subseteq> set r" "set r \<subseteq> dom d"
      by auto
    with h False m' k' show ?thesis by auto
  qed
qed

section \<open>Every reference of a formula is an edge\<close>

lemma dependent_of_key: "k \<in> set (snd (dep_entry d t)) \<Longrightarrow> d t \<noteq> None"
  by (auto simp: dep_entry_def split: option.splits)

lemma register_tokens_formula:
  "fst (dep_entry (register_tokens a ts d) k) = fst (dep_entry d k)"
  by (induction ts arbitrary: d) (auto simp: dep_entry_def)

lemma register_tokens_keeps:
  "set (snd (dep_entry d k)) \<subseteq> set (snd (dep_entry (register_tokens a ts d) k))"
proof (induction ts arbitrary: d)
  case Nil
  then show ?case by simp
next
  case (Cons t ts)
  show ?case
  proof (cases "is_letter_number_format t")
    case False
    with Cons show ?thesis by simp
  next
    case True
    let ?d = "d(t \<mapsto> (fst (dep_entry d t), snd (dep_entry d t) @ [a]))"
    have "set (snd (dep_entry d k)) \<subseteq> set (snd (dep_entry ?d k))"
      by (auto simp: dep_entry_def)
    also have "\<dots> \<subseteq> set (snd (dep_entry (register_tokens a ts ?d) k))"
      by (rule Cons.IH)
    finally show ?thesis using True by simp
  qed
qed

lemma register_tokens_adds:
  "t \<in> set ts \<Longrightarrow> is_letter_number_format t \<Longrightarrow>
   a \<in> set (snd (dep_entry (register_tokens a ts d) t))"
proof (induction ts arbitrary: d)
  case Nil
  then show ?case by simp
next
  case (Cons u ts)
  show ?case
  proof (cases "u = t")
    case True
    let ?d = "d(t \<mapsto> (fst (dep_entry d t), snd (dep_entry d t) @ [a]))"
    have "a \<in> set (snd (dep_entry ?d t))"
      by (simp add: dep_entry_def)
    with register_tokens_keeps [of ?d t a ts] have
      "a \<in> set (snd (dep_entry (register_tokens a ts ?d) t))"
      by blast
    with True Cons.prems(2) show ?thesis by simp
  next
    case False
    with Cons.prems have "t \<in> set ts" by simp
    from Cons.IH [OF this Cons.prems(2)] show ?thesis by simp
  qed
qed

lemma registered_parse_tokens:
  assumes "references_registered (dependencies s)" and pt: "parse_tokens coords text s = Inr s'"
  shows "references_registered (dependencies s')"
proof (cases "contains_letter text")
  case False
  with pt have "dependencies s' = dependencies s"
    by (auto simp: parse_tokens_def calculate_postfix_def split: sum.splits)
  with assms(1) show ?thesis by simp
next
  case True
  let ?a = "coords_to_address coords"
  let ?d = "dependencies s"
  let ?d1 = "?d(?a \<mapsto> (text, snd (dep_entry ?d ?a)))"
  let ?d2 = "register_tokens ?a (tokens text) ?d1"
  have d1: "(case ?d ?a of Some e \<Rightarrow> ?d(?a \<mapsto> (text, snd e)) | None \<Rightarrow> ?d(?a \<mapsto> (text, []))) = ?d1"
    by (simp add: dep_entry_def split: option.splits)
  have "references_registered ?d2"
    unfolding references_registered_def
  proof (intro allI impI)
    fix k t
    assume a: "t \<in> set (tokens (fst (dep_entry ?d2 k))) \<and> is_letter_number_format t"
    have f: "fst (dep_entry ?d2 k) = fst (dep_entry ?d1 k)"
      by (rule register_tokens_formula)
    show "k \<in> set (snd (dep_entry ?d2 t))"
    proof (cases "k = ?a")
      case True
      with a f have "t \<in> set (tokens text)" by (simp add: dep_entry_def)
      with a True show ?thesis by (simp add: register_tokens_adds)
    next
      case False
      with a f have "t \<in> set (tokens (fst (dep_entry ?d k)))" by (simp add: dep_entry_def)
      with a assms(1) have "k \<in> set (snd (dep_entry ?d t))"
        unfolding references_registered_def by blast
      then have "k \<in> set (snd (dep_entry ?d1 t))"
        by (auto simp: dep_entry_def)
      with register_tokens_keeps [of ?d1 t ?a "tokens text"] show ?thesis by blast
    qed
  qed
  moreover from True d1 pt have "dependencies s' = ?d2"
    by (auto simp: parse_tokens_def Let_def)
  ultimately show ?thesis by simp
qed

lemma tokens_empty: "tokens [] = []"
  by (simp add: tokens_def)

lemma registered_loaded:
  assumes "loaded contents = Inr s"
  shows "references_registered (dependencies s)"
proof (rule loaded_preserves [where P = "\<lambda>s. references_registered (dependencies s)", OF _ _ _ assms])
  show "references_registered (dependencies clear)"
    by (simp add: references_registered_def clear_def dep_entry_def tokens_empty)
qed (simp_all add: registered_parse_tokens)

section \<open>The evaluation order of an acyclic sheet\<close>

text \<open>
  The order for the graph the registry records. The nodes are address texts, and a formula
  references an address when it contains that text as a token. For every input whose graph
  is acyclic, with the keys of the registry in any order and a depth bound of at least the
  number of keys, \<open>topological_sort_dependencies\<close> reports no cycle, leaves the state as
  loaded, and returns every key exactly once, each after all the address tokens that its
  formula contains; \<open>resolve_dependencies\<close> is the loop over that order, from the front.
\<close>

lemma registry_order_respects_tokens:
  assumes load: "loaded contents = Inr s"
    and "acyclic (dep_edges (dependencies s))"
    and "set keys = dom (dependencies s)"
    and "card (dom (dependencies s)) \<le> fuel"
  shows "\<exists>r. topological_sort_dependencies fuel keys s = Inr (r, s) \<and>
           resolve_dependencies fuel keys s = resolve_all r s \<and>
           distinct r \<and> set r = dom (dependencies s) \<and>
           (\<forall>i<length r. \<forall>t\<in>set (tokens (fst (dep_entry (dependencies s) (r ! i)))).
              is_letter_number_format t \<longrightarrow> (\<exists>j<i. r ! j = t))"
proof -
  let ?d = "dependencies s"
  let ?init = "\<lparr>marked = {}, recStack = {}, res = []\<rparr>"
  have fin: "finite (dom ?d)"
    using assms(3) [symmetric] by simp
  have inv: "dfs_inv ?d ?init"
    by (simp add: dfs_inv_def)
  from sort_loop_acyclic [OF assms(2) closed_loaded [OF load] fin assms(4), of keys ?init "cells s"]
    assms(3) inv
  obtain r where loop: "sort_loop fuel ?d keys ?init (cells s) = Inr (r, cells s)"
    and dist: "distinct r" and resp: "respects_edges ?d r"
    and sup: "set keys \<subseteq> set r" and sub: "set r \<subseteq> dom ?d"
    by auto
  from loop have sort: "topological_sort_dependencies fuel keys s = Inr (r, s)"
    by (simp add: topological_sort_dependencies_def)
  then have walk: "resolve_dependencies fuel keys s = resolve_all r s"
    by (simp add: resolve_dependencies_def)
  from sup sub assms(3) have setr: "set r = dom ?d" by auto
  have "\<exists>j<i. r ! j = t"
    if i: "i < length r" and t: "t \<in> set (tokens (fst (dep_entry ?d (r ! i))))"
      and fmt: "is_letter_number_format t" for i t
  proof -
    from registered_loaded [OF load] t fmt have edge: "r ! i \<in> set (snd (dep_entry ?d t))"
      unfolding references_registered_def by blast
    then have "?d t \<noteq> None"
      by (rule dependent_of_key)
    with setr have "t \<in> set r" by auto
    then obtain j where j: "j < length r" "r ! j = t"
      by (auto simp: in_set_conv_nth)
    with respects_edges_nth [OF resp, of j "r ! i"] edge obtain i' where
      i': "j < i'" "i' < length r" "r ! i' = r ! i"
      by auto
    with dist i have "i' = i"
      by (simp add: nth_eq_iff_index_eq)
    with i' j show ?thesis by blast
  qed
  with sort walk dist setr show ?thesis by blast
qed

lemma respects_edges_mem:
  "respects_edges d r \<Longrightarrow> a \<in> set r \<Longrightarrow> set (snd (dep_entry d a)) \<subseteq> set r"
  by (induction r) auto

lemma suffix_shorter:
  "respects_edges d r \<Longrightarrow> distinct r \<Longrightarrow> a \<in> set r \<Longrightarrow> b \<in> set (snd (dep_entry d a)) \<Longrightarrow>
   length (dropWhile (\<lambda>y. y \<noteq> b) r) < length (dropWhile (\<lambda>y. y \<noteq> a) r)"
proof (induction r)
  case Nil
  then show ?case by simp
next
  case (Cons y ys)
  show ?case
  proof (cases "a = y")
    case True
    with Cons.prems have "b \<in> set ys" "y \<notin> set ys" by auto
    then have "b \<noteq> y" by auto
    moreover have "length (dropWhile (\<lambda>y. y \<noteq> b) ys) \<le> length ys"
      by (rule length_dropWhile_le)
    ultimately show ?thesis using True by simp
  next
    case False
    with Cons.prems have a: "a \<in> set ys" and r: "respects_edges d ys" and dist: "distinct ys"
      and y: "y \<notin> set ys"
      by auto
    from respects_edges_mem [OF r a] Cons.prems(4) have "b \<in> set ys" by auto
    with y have "b \<noteq> y" by auto
    with False Cons.IH [OF r dist a Cons.prems(4)] show ?thesis by simp
  qed
qed

text \<open>An order of all keys that respects the edges shows that the graph is acyclic.\<close>

lemma acyclic_by_order:
  assumes "respects_edges d r" "distinct r" "dom d \<subseteq> set r"
  shows "acyclic (dep_edges d)"
proof (rule acyclicI_order [where f = "\<lambda>x. length (dropWhile (\<lambda>y. y \<noteq> x) r)"])
  fix a b
  assume "(a, b) \<in> dep_edges d"
  then have b: "b \<in> set (snd (dep_entry d a))"
    by (simp add: dep_edges_def)
  then have "d a \<noteq> None"
    by (rule dependent_of_key)
  with assms(3) have "a \<in> set r" by auto
  from suffix_shorter [OF assms(1,2) this b]
  show "length (dropWhile (\<lambda>y. y \<noteq> b) r) < length (dropWhile (\<lambda>y. y \<noteq> a) r)" .
qed

text \<open>
  The sheet \<open>A0 = 5\<close>, \<open>A1 = A0 2 *\<close>, \<open>A2 = A1 A0 +\<close>, with the registry iterated
  in the order \<open>A2, A1, A0\<close>: the order returned is \<open>A0, A1, A2\<close>.
\<close>

lemma registry_order_example:
  "after_loading (file_of [''5'', ''A0 2 *'', ''A1 A0 +''])
     (\<lambda>s. acyclic (dep_edges (dependencies s)) \<and>
          topological_sort_dependencies 3 [''A2'', ''A1'', ''A0''] s
            = Inr ([''A0'', ''A1'', ''A2''], s)) = Inr True"
proof -
  have ex: "after_loading (file_of [''5'', ''A0 2 *'', ''A1 A0 +''])
      (\<lambda>s. respects_edges (dependencies s) [''A0'', ''A1'', ''A2'']) = Inr True"
    by code_simp
  then obtain s where load: "loaded (file_of [''5'', ''A0 2 *'', ''A1 A0 +'']) = Inr s"
    and resp: "respects_edges (dependencies s) [''A0'', ''A1'', ''A2'']"
    by (auto simp: after_loading_Inr)
  have "file_keys 0 (getlines CHR 0x0A (file_of [''5'', ''A0 2 *'', ''A1 A0 +'']))
      = [''A1'', ''A0'', ''A2'', ''A1'', ''A0'']"
    by code_simp
  with dom_loaded [OF load] have keys: "dom (dependencies s) = {''A0'', ''A1'', ''A2''}"
    by auto
  have acyc: "acyclic (dep_edges (dependencies s))"
    using resp by (rule acyclic_by_order) (simp_all add: keys)
  have k: "set [''A2'', ''A1'', ''A0''] = dom (dependencies s)"
    unfolding keys by auto
  have c: "card (dom (dependencies s)) \<le> 3"
    unfolding keys by simp
  from registry_order_respects_tokens [OF load acyc k c] obtain r where
    r: "topological_sort_dependencies 3 [''A2'', ''A1'', ''A0''] s = Inr (r, s)"
    by blast
  have "after_loading (file_of [''5'', ''A0 2 *'', ''A1 A0 +''])
      (\<lambda>s. sorted_order (topological_sort_dependencies 3 [''A2'', ''A1'', ''A0''] s))
      = Inr (Inr [''A0'', ''A1'', ''A2''])"
    by code_simp
  with load r have "r = [''A0'', ''A1'', ''A2'']"
    by (simp add: after_loading_def sorted_order_def)
  with r acyc load show ?thesis
    by (simp add: after_loading_def)
qed

text \<open>
  C4. The claim: for every acyclic input, every formula cell is evaluated after all cells
  that its formula references have received their final values. \<open>parse_tokens\<close> enters a
  reference into the registry under the text of the token, while \<open>resolve_references\<close>
  reads the referenced cell at the coordinate that \<open>address_to_coords\<close> computes from the
  token, and several texts denote one coordinate: \<open>A01\<close> denotes the coordinate of
  \<open>A1\<close>. In the sheet \<open>A0 = A01 1 +\<close>, \<open>A1 = B1 1 +\<close>, \<open>B1 = 3\<close> no cell
  references itself, directly or through others. The registry lists \<open>A0\<close> as a dependent of
  the key \<open>A01\<close> and of no other key, so nothing orders \<open>A0\<close> after \<open>A1\<close>. With the
  registry iterated in the order \<open>B1, A1, A01, A0\<close> the order returned is
  \<open>A01, A0, B1, A1\<close>: \<open>A0\<close> is evaluated while the coordinate of \<open>A1\<close> is still
  absent, and ends as \<open>Error\<close>, while \<open>A1\<close> ends as 4. In the order \<open>A01, A0, A1, B1\<close>
  the cell \<open>A0\<close> is evaluated after \<open>A1\<close> and ends as 5. Of the 24 orders of the four
  keys, \<open>A0\<close> ends as \<open>Error\<close> in those that begin with \<open>A1\<close> or \<open>B1\<close>, and as
  5 in the others.
\<close>

theorem aliased_reference_evaluated_too_early:
  "address_to_coords ''A01'' = Inr (0, 1) \<and> coords_to_address (0, 1) = ''A1'' \<and>
   after_loading (file_of [''A01 1 +'', ''B1 1 +,3'']) (\<lambda>s. dom (dependencies s))
     = Inr {''A0'', ''A01'', ''A1'', ''B1''} \<and>
   after_loading (file_of [''A01 1 +'', ''B1 1 +,3''])
     (\<lambda>s. map (dep_entry (dependencies s)) [''A0'', ''A01'', ''A1'', ''B1''])
     = Inr [(''A01 1 +'', []), ([], [''A0'']), (''B1 1 +'', []), ([], [''A1''])] \<and>
   after_loading (file_of [''A01 1 +'', ''B1 1 +,3''])
     (\<lambda>s. acyclic (dep_edges (dependencies s))) = Inr True \<and>
   after_loading (file_of [''A01 1 +'', ''B1 1 +,3''])
     (\<lambda>s. sorted_order (topological_sort_dependencies 4 [''B1'', ''A1'', ''A01'', ''A0''] s))
     = Inr (Inr [''A01'', ''A0'', ''B1'', ''A1'']) \<and>
   map (value_at (parse_input 4 [''B1'', ''A1'', ''A01'', ''A0'']
          (file_of [''A01 1 +'', ''B1 1 +,3'']) clear)) [(0, 0), (0, 1), (1, 1)]
     = [Inr (Some (CState Error)), Inr (Some (CInt 4)), Inr (Some (CInt 3))] \<and>
   map (value_at (parse_input 4 [''A01'', ''A0'', ''A1'', ''B1'']
          (file_of [''A01 1 +'', ''B1 1 +,3'']) clear)) [(0, 0), (0, 1), (1, 1)]
     = [Inr (Some (CInt 5)), Inr (Some (CInt 4)), Inr (Some (CInt 3))] \<and>
   list_all
     (\<lambda>keys. value_at (parse_input 4 keys (file_of [''A01 1 +'', ''B1 1 +,3'']) clear) (0, 0)
        = (if hd keys = ''A1'' \<or> hd keys = ''B1'' then Inr (Some (CState Error))
           else Inr (Some (CInt 5))))
     (orderings [''A0'', ''A01'', ''A1'', ''B1''])"
proof -
  have ex: "after_loading (file_of [''A01 1 +'', ''B1 1 +,3''])
      (\<lambda>s. respects_edges (dependencies s) [''A01'', ''A0'', ''B1'', ''A1'']) = Inr True"
    by code_simp
  then obtain s where load: "loaded (file_of [''A01 1 +'', ''B1 1 +,3'']) = Inr s"
    and resp: "respects_edges (dependencies s) [''A01'', ''A0'', ''B1'', ''A1'']"
    by (auto simp: after_loading_Inr)
  have "file_keys 0 (getlines CHR 0x0A (file_of [''A01 1 +'', ''B1 1 +,3'']))
      = [''A0'', ''A01'', ''A1'', ''B1'']"
    by code_simp
  then have fk: "set (file_keys 0 (getlines CHR 0x0A (file_of [''A01 1 +'', ''B1 1 +,3''])))
      = {''A0'', ''A01'', ''A1'', ''B1''}"
    by auto
  with dom_loaded [OF load] have keys: "dom (dependencies s) = {''A0'', ''A01'', ''A1'', ''B1''}"
    by simp
  have "acyclic (dep_edges (dependencies s))"
    using resp by (rule acyclic_by_order) (simp_all add: keys)
  with load have acyc: "after_loading (file_of [''A01 1 +'', ''B1 1 +,3''])
      (\<lambda>s. acyclic (dep_edges (dependencies s))) = Inr True"
    by (simp add: after_loading_def)
  have "address_to_coords ''A01'' = Inr (0, 1)" "coords_to_address (0, 1) = ''A1''"
    "after_loading (file_of [''A01 1 +'', ''B1 1 +,3''])
       (\<lambda>s. map (dep_entry (dependencies s)) [''A0'', ''A01'', ''A1'', ''B1''])
       = Inr [(''A01 1 +'', []), ([], [''A0'']), (''B1 1 +'', []), ([], [''A1''])]"
    "after_loading (file_of [''A01 1 +'', ''B1 1 +,3''])
       (\<lambda>s. sorted_order (topological_sort_dependencies 4 [''B1'', ''A1'', ''A01'', ''A0''] s))
       = Inr (Inr [''A01'', ''A0'', ''B1'', ''A1''])"
    "map (value_at (parse_input 4 [''B1'', ''A1'', ''A01'', ''A0'']
          (file_of [''A01 1 +'', ''B1 1 +,3'']) clear)) [(0, 0), (0, 1), (1, 1)]
     = [Inr (Some (CState Error)), Inr (Some (CInt 4)), Inr (Some (CInt 3))]"
    "map (value_at (parse_input 4 [''A01'', ''A0'', ''A1'', ''B1'']
          (file_of [''A01 1 +'', ''B1 1 +,3'']) clear)) [(0, 0), (0, 1), (1, 1)]
     = [Inr (Some (CInt 5)), Inr (Some (CInt 4)), Inr (Some (CInt 3))]"
    by code_simp+
  moreover have "list_all
     (\<lambda>keys. value_at (parse_input 4 keys (file_of [''A01 1 +'', ''B1 1 +,3'']) clear) (0, 0)
        = (if hd keys = ''A1'' \<or> hd keys = ''B1'' then Inr (Some (CState Error))
           else Inr (Some (CInt 5))))
     (orderings [''A0'', ''A01'', ''A1'', ''B1''])"
    by code_simp
  ultimately show ?thesis
    using acyc dom_after_loading [OF ex fk] by blast
qed

text \<open>The value of \<open>A0\<close> in the sheet is 5; in the first order it is not what the cell holds.\<close>

theorem aliased_reference_evaluated_too_early_witness:
  "value_at (parse_input 4 [''B1'', ''A1'', ''A01'', ''A0'']
      (file_of [''A01 1 +'', ''B1 1 +,3'']) clear) (0, 0) \<noteq> Inr (Some (CInt 5))"
  using aliased_reference_evaluated_too_early by simp

section \<open>The depth bound\<close>

lemma dfs_loop_returns:
  assumes closed: "closed_registry d" and fin: "finite (dom d)"
    and call: "\<And>w st. \<lbrakk>w \<in> dom d; w \<notin> marked st; marked st \<subseteq> dom d;
                 card (dom d - marked st) \<le> m\<rbrakk>
             \<Longrightarrow> \<exists>c st'. call w st = Some (c, st') \<and> marked st \<subseteq> marked st' \<and>
                   marked st' \<subseteq> dom d"
    and x: "x \<in> dom d"
  shows "\<lbrakk>set ws \<subseteq> set (snd (dep_entry d x)); marked st \<subseteq> dom d;
          card (dom d - marked st) \<le> m\<rbrakk>
         \<Longrightarrow> \<exists>c st'. dfs_loop call x ws hc st = Some (c, st') \<and> marked st \<subseteq> marked st' \<and>
               marked st' \<subseteq> dom d"
proof (induction ws arbitrary: st hc)
  case Nil
  then show ?case by simp
next
  case (Cons w ws)
  from Cons.prems(1) have sub: "set ws \<subseteq> set (snd (dep_entry d x))" by simp
  from Cons.prems(1) closed_dependents [OF closed, of x] have w: "w \<in> dom d" by auto
  show ?case
  proof (cases "w \<in> recStack st")
    case True
    with Cons.prems(2) show ?thesis by auto
  next
    case notrec: False
    show ?thesis
    proof (cases "w \<in> marked st")
      case True
      with notrec Cons.IH [OF sub Cons.prems(2,3), of hc] show ?thesis by simp
    next
      case False
      from call [OF w False Cons.prems(2,3)] obtain c st1 where
        c: "call w st = Some (c, st1)" and m1: "marked st \<subseteq> marked st1"
        and u1: "marked st1 \<subseteq> dom d"
        by blast
      have "dom d - marked st1 \<subseteq> dom d - marked st"
        using m1 by auto
      with fin have "card (dom d - marked st1) \<le> card (dom d - marked st)"
        by (intro card_mono) auto
      with Cons.prems(3) have "card (dom d - marked st1) \<le> m" by simp
      from Cons.IH [OF sub u1 this, of "hc \<or> c"] obtain c' st' where
        "dfs_loop call x ws (hc \<or> c) st1 = Some (c', st')" "marked st1 \<subseteq> marked st'"
        "marked st' \<subseteq> dom d"
        by blast
      with c False notrec m1 show ?thesis by auto
    qed
  qed
qed

lemma dfs_helper_returns:
  assumes closed: "closed_registry d" and fin: "finite (dom d)"
  shows "\<lbrakk>w \<in> dom d; w \<notin> marked st; marked st \<subseteq> dom d; card (dom d - marked st) \<le> n\<rbrakk>
         \<Longrightarrow> \<exists>c st'. topological_dfs_helper n d w st = Some (c, st') \<and>
               marked st \<subseteq> marked st' \<and> marked st' \<subseteq> dom d"
proof (induction n arbitrary: w st)
  case 0
  from 0(1,2) have "w \<in> dom d - marked st" by simp
  moreover from fin 0(4) have "dom d - marked st = {}" by simp
  ultimately show ?case by simp
next
  case (Suc m)
  let ?st1 = "st\<lparr>marked := insert w (marked st), recStack := insert w (recStack st)\<rparr>"
  have "dom d - marked ?st1 = (dom d - marked st) - {w}" by auto
  moreover have "w \<in> dom d - marked st" using Suc.prems(1,2) by simp
  moreover have "finite (dom d - marked st)" using fin by simp
  ultimately have "card (dom d - marked ?st1) = card (dom d - marked st) - 1"
    by (simp add: card_Diff_singleton)
  with Suc.prems(4) have card1: "card (dom d - marked ?st1) \<le> m" by simp
  have u1: "marked ?st1 \<subseteq> dom d" using Suc.prems(1,3) by simp
  have "\<exists>c st'. dfs_loop (topological_dfs_helper m d) w (snd (dep_entry d w)) False ?st1
            = Some (c, st') \<and> marked ?st1 \<subseteq> marked st' \<and> marked st' \<subseteq> dom d"
  proof (rule dfs_loop_returns [OF closed fin _ Suc.prems(1)])
    fix w' and st' :: dfs_state
    assume "w' \<in> dom d" "w' \<notin> marked st'" "marked st' \<subseteq> dom d" "card (dom d - marked st') \<le> m"
    then show "\<exists>c st''. topological_dfs_helper m d w' st' = Some (c, st'') \<and>
        marked st' \<subseteq> marked st'' \<and> marked st'' \<subseteq> dom d"
      by (rule Suc.IH)
  qed (use card1 u1 in simp_all)
  then show ?case by auto
qed

text \<open>
  With a depth bound of at least the number of keys the traversal never exceeds it, on any
  registry whose dependents are keys, cyclic or not.
\<close>

lemma sort_loop_within_depth:
  assumes closed: "closed_registry d" and fin: "finite (dom d)" and fuel: "card (dom d) \<le> fuel"
  shows "\<lbrakk>set ks \<subseteq> dom d; marked st \<subseteq> dom d\<rbrakk> \<Longrightarrow> sort_loop fuel d ks st g \<noteq> Inl Depth_exceeded"
proof (induction ks arbitrary: st g)
  case Nil
  then show ?case by simp
next
  case (Cons k ks)
  from Cons.prems(1) have ks: "set ks \<subseteq> dom d" and k: "k \<in> dom d" by simp_all
  show ?case
  proof (cases "k \<in> marked st")
    case True
    with Cons.IH [OF ks Cons.prems(2)] show ?thesis by simp
  next
    case False
    have "card (dom d - marked st) \<le> card (dom d)"
      using fin by (intro card_mono) auto
    with fuel have "card (dom d - marked st) \<le> fuel" by simp
    from dfs_helper_returns [OF closed fin k False Cons.prems(2) this] obtain c st' where
      h: "topological_dfs_helper fuel d k st = Some (c, st')" and u': "marked st' \<subseteq> dom d"
      by blast
    show ?thesis
    proof (cases "c \<and> (\<exists>e. mark_errors (res st') g = Inl e)")
      case True
      with h False show ?thesis by auto
    next
      case no: False
      show ?thesis
      proof (cases c)
        case True
        with no obtain g' where "mark_errors (res st') g = Inr g'"
          by (cases "mark_errors (res st') g") auto
        with h False True Cons.IH [OF ks u', of g'] show ?thesis by simp
      next
        case c: False
        with h False Cons.IH [OF ks u', of g] show ?thesis by simp
      qed
    qed
  qed
qed

text \<open>The evaluation of the cells has no part in the depth: its failures are others.\<close>

lemma int_div_failure: "int_div a b = Inl f \<Longrightarrow> f = Arithmetic_trap"
  by (auto simp: int_div_def split: if_splits)

lemma postfix_loop_failure: "postfix_loop ts st = Inl f \<Longrightarrow> f = Arithmetic_trap"
proof (induction ts arbitrary: st)
  case Nil
  then show ?case by simp
next
  case (Cons token ts)
  show ?case
  proof (cases "is_operator token")
    case False
    with Cons.prems obtain number where "postfix_loop ts (number # st) = Inl f"
      by (auto split: sum.splits)
    then show ?thesis by (rule Cons.IH)
  next
    case True
    with Cons.prems obtain op1 op2 rest where st: "st = op1 # op2 # rest"
      by (cases st; cases "tl st") auto
    consider (plus) "token = ''+''"
      | (minus) "token \<noteq> ''+''" "token = ''-''"
      | (times) "token \<noteq> ''+''" "token \<noteq> ''-''" "token = ''*''"
      | (quot) "token \<noteq> ''+''" "token \<noteq> ''-''" "token \<noteq> ''*''"
      by blast
    then show ?thesis
    proof cases
      case plus
      with True st Cons.prems have "postfix_loop ts ((op1 + op2) # rest) = Inl f" by simp
      then show ?thesis by (rule Cons.IH)
    next
      case minus
      with True st Cons.prems have "postfix_loop ts ((op1 - op2) # rest) = Inl f" by simp
      then show ?thesis by (rule Cons.IH)
    next
      case times
      with True st Cons.prems have "postfix_loop ts ((op1 * op2) # rest) = Inl f" by simp
      then show ?thesis by (rule Cons.IH)
    next
      case quot
      show ?thesis
      proof (cases "int_div op1 op2")
        case (Inl f')
        with quot True st Cons.prems have "f' = f"
          by (simp split: if_splits)
        with Inl show ?thesis by (simp add: int_div_failure)
      next
        case (Inr result)
        with quot True st Cons.prems have "postfix_loop ts (result # rest) = Inl f"
          by (simp split: if_splits)
        then show ?thesis by (rule Cons.IH)
      qed
    qed
  qed
qed

lemma calculate_postfix_failure: "calculate_postfix p e s = Inl f \<Longrightarrow> f = Arithmetic_trap"
  by (auto simp: calculate_postfix_def postfix_value_def split: sum.splits
           dest: postfix_loop_failure)

lemma resolve_step_failure: "resolve_step a s = Inl f \<Longrightarrow> f \<noteq> Depth_exceeded"
  by (auto simp: resolve_step_def Let_def split: sum.splits if_splits
           dest: calculate_postfix_failure)

lemma resolve_all_failure: "resolve_all cs s = Inl f \<Longrightarrow> f \<noteq> Depth_exceeded"
proof (induction cs arbitrary: s)
  case Nil
  then show ?case by simp
next
  case (Cons c cs)
  show ?case
  proof (cases "resolve_step c s")
    case (Inl f')
    with Cons.prems have "f' = f" by simp
    with Inl show ?thesis by (simp add: resolve_step_failure)
  next
    case (Inr s1)
    with Cons.prems have "resolve_all cs s1 = Inl f" by simp
    then show ?thesis by (rule Cons.IH)
  qed
qed

lemma parse_input_within_depth:
  assumes load: "loaded contents = Inr s"
    and "set keys = dom (dependencies s)"
    and "card (dom (dependencies s)) \<le> fuel"
  shows "parse_input fuel keys contents clear \<noteq> Inl Depth_exceeded"
proof -
  have fin: "finite (dom (dependencies s))"
    using assms(2) [symmetric] by simp
  have "sort_loop fuel (dependencies s) keys \<lparr>marked = {}, recStack = {}, res = []\<rparr> (cells s)
      \<noteq> Inl Depth_exceeded"
    by (rule sort_loop_within_depth [OF closed_loaded [OF load] fin assms(3)])
       (simp_all add: assms(2))
  then have sort: "topological_sort_dependencies fuel keys s \<noteq> Inl Depth_exceeded"
    by (auto simp: topological_sort_dependencies_def split: sum.splits prod.splits)
  have "resolve_dependencies fuel keys s \<noteq> Inl Depth_exceeded"
  proof (cases "topological_sort_dependencies fuel keys s")
    case (Inl f)
    with sort show ?thesis by (simp add: resolve_dependencies_def)
  next
    case (Inr p)
    obtain r s1 where "p = (r, s1)" by (cases p)
    with Inr resolve_all_failure [of r s1] show ?thesis
      by (auto simp: resolve_dependencies_def)
  qed
  moreover from load obtain row where
    "parse_lines 0 (getlines CHR 0x0A contents) clear = Inr (row, s)"
    by (auto simp: loaded_def split: sum.splits)
  ultimately show ?thesis
    by (auto simp: parse_input_def split: sum.splits)
qed

end
